theory Spec2Isabelle
  imports Complex_Main "HOL-Library.Char_ord" "HOL-Library.List_Lexorder"
begin

section \<open>Strings\<close>

text \<open>
  A Python \<open>str\<close> is modelled as a \<open>string\<close>: a list of characters with code points
  0..255 (Latin-1); names with other characters, among them the decimal digits beyond
  ASCII that \<open>\d\<close> and \<open>int\<close> also accept, lie outside the model.
  On this range \<open>\d\<close> matches exactly the ten ASCII digits, the
  letters of the extensions match, under \<open>re.IGNORECASE\<close>, exactly their two ASCII
  cases, and \<open>str.lower\<close> maps one character to one character. Strings are compared
  as Python compares them: lexicographically by code point.
\<close>

definition newline :: char where
  "newline = CHR 0x0A"

definition is_digit :: "char \<Rightarrow> bool" where
  "is_digit c = (48 \<le> (of_char c :: nat) \<and> (of_char c :: nat) \<le> 57)"

definition digit_val :: "char \<Rightarrow> int" where
  "digit_val c = int (of_char c) - 48"

text \<open>\<open>str.lower()\<close> on one character: A-Z, and the upper-case letters of Latin-1
  (U+00C0..U+00DE without the multiplication sign U+00D7), move up by 32.\<close>

definition lower_char :: "char \<Rightarrow> char" where
  "lower_char c =
     (let n = (of_char c :: nat) in
      if (65 \<le> n \<and> n \<le> 90) \<or> (192 \<le> n \<and> n \<le> 222 \<and> n \<noteq> 215)
      then char_of (n + 32) else c)"

definition py_lower :: "string \<Rightarrow> string" where
  "py_lower s = map lower_char s"

text \<open>\<open>s.endswith(t)\<close>.\<close>

definition endswith :: "string \<Rightarrow> string \<Rightarrow> bool" where
  "endswith s t = (length t \<le> length s \<and> drop (length s - length t) s = t)"

text \<open>\<open>int(s)\<close> on a string of decimal digits; anything else this model treats as the
  \<open>ValueError\<close> branch. The only caller passes the \<open>index\<close> group of a match.\<close>

fun digits_value :: "int \<Rightarrow> string \<Rightarrow> int" where
  "digits_value acc [] = acc"
| "digits_value acc (c # cs) = digits_value (10 * acc + digit_val c) cs"

definition py_int :: "string \<Rightarrow> int option" where
  "py_int s = (if s \<noteq> [] \<and> list_all is_digit s then Some (digits_value 0 s) else None)"

text \<open>\<open>str(i)\<close> of an integer: its decimal digits, after a minus sign when negative.\<close>

definition digit_char :: "nat \<Rightarrow> char" where
  "digit_char d = char_of (48 + d)"

fun digits_of :: "nat \<Rightarrow> string" where
  "digits_of n = (if n < 10 then [digit_char n] else digits_of (n div 10) @ [digit_char (n mod 10)])"

definition py_str :: "int \<Rightarrow> string" where
  "py_str i = (if i < 0 then CHR ''-'' # digits_of (nat (- i)) else digits_of (nat i))"

text \<open>\<open>os.path.join(a, b)\<close> of \<open>posixpath\<close>, for two components.\<close>

definition path_join :: "string \<Rightarrow> string \<Rightarrow> string" where
  "path_join a b =
     (if b \<noteq> [] \<and> hd b = CHR ''/'' then b
      else if a = [] \<or> last a = CHR ''/'' then a @ b
      else a @ ''/'' @ b)"

section \<open>SEQ\_PATTERNS\<close>

text \<open>
  The two compiled patterns, each matched with \<open>pat.match(f)\<close>:
  \<^item> \<open>SepPattern\<close>: \<^verbatim>\<open>^(?P<prefix>.*?)[._-](?P<index>\d{3,6})\.(?P<ext>png|jpg|jpeg|bmp|tif|tiff)$\<close>
  \<^item> \<open>PlainPattern\<close>: \<^verbatim>\<open>^(?P<prefix>.*?)(?P<index>\d{3,6})\.(?P<ext>png|jpg|jpeg|bmp|tif|tiff)$\<close>
  both with \<open>re.IGNORECASE\<close>. The matcher below follows the backtracking order of
  \<open>re\<close>: the lazy prefix grows one character at a time, the greedy index shrinks from
  six digits to three, the alternatives of the extension are tried left to right.
\<close>

datatype pattern = SepPattern | PlainPattern

definition SEQ_PATTERNS :: "pattern list" where
  "SEQ_PATTERNS = [SepPattern, PlainPattern]"

definition EXT_ALTS :: "string list" where
  "EXT_ALTS = [''png'', ''jpg'', ''jpeg'', ''bmp'', ''tif'', ''tiff'']"

definition SUPPORTED_EXTS :: "string list" where
  "SUPPORTED_EXTS = [''.png'', ''.jpg'', ''.jpeg'', ''.bmp'', ''.tif'', ''.tiff'']"

definition is_sep :: "char \<Rightarrow> bool" where
  "is_sep c = (c = CHR ''.'' \<or> c = CHR ''_'' \<or> c = CHR ''-'')"

text \<open>\<open>$\<close> without \<open>re.MULTILINE\<close>: the end of the string, or just before a newline
  that ends the string.\<close>

definition at_end :: "string \<Rightarrow> bool" where
  "at_end s = (s = [] \<or> s = [newline])"

text \<open>\<open>(?P<ext>png|...|tiff)$\<close>: the first alternative that matches the head of \<open>s\<close>
  without regard to case and is followed by \<open>$\<close>; the group is the text as written.\<close>

fun match_ext :: "string list \<Rightarrow> string \<Rightarrow> string option" where
  "match_ext [] s = None"
| "match_ext (a # alts) s =
     (if py_lower (take (length a) s) = a \<and> at_end (drop (length a) s)
      then Some (take (length a) s)
      else match_ext alts s)"

text \<open>\<open>(?P<index>\d{3,6})\.(?P<ext>...)$\<close>: the digit counts in the order tried.\<close>

fun match_index :: "nat list \<Rightarrow> string \<Rightarrow> (string \<times> string) option" where
  "match_index [] s = None"
| "match_index (n # ns) s =
     (if n \<le> length s \<and> list_all is_digit (take n s) then
        (case drop n s of
           [] \<Rightarrow> match_index ns s
         | c # r \<Rightarrow>
             if c = CHR ''.'' then
               (case match_ext EXT_ALTS r of
                  Some e \<Rightarrow> Some (take n s, e)
                | None \<Rightarrow> match_index ns s)
             else match_index ns s)
      else match_index ns s)"

text \<open>What follows the prefix group.\<close>

fun match_tail :: "pattern \<Rightarrow> string \<Rightarrow> (string \<times> string) option" where
  "match_tail SepPattern [] = None"
| "match_tail SepPattern (c # r) = (if is_sep c then match_index [6, 5, 4, 3] r else None)"
| "match_tail PlainPattern s = match_index [6, 5, 4, 3] s"

text \<open>\<open>^(?P<prefix>.*?)\<close>: the shortest prefix after which the rest matches; \<open>.\<close> does
  not match a newline. \<open>acc\<close> holds the prefix read so far, reversed.\<close>

fun match_from :: "pattern \<Rightarrow> string \<Rightarrow> string \<Rightarrow> (string \<times> string \<times> string) option" where
  "match_from pat acc [] =
     (case match_tail pat [] of Some (i, e) \<Rightarrow> Some (rev acc, i, e) | None \<Rightarrow> None)"
| "match_from pat acc (c # r) =
     (case match_tail pat (c # r) of
        Some (i, e) \<Rightarrow> Some (rev acc, i, e)
      | None \<Rightarrow> if c = newline then None else match_from pat (c # acc) r)"

text \<open>\<open>pat.match(f)\<close>: the groups \<open>prefix\<close>, \<open>index\<close>, \<open>ext\<close>, or \<open>None\<close>.\<close>

definition pat_match :: "pattern \<Rightarrow> string \<Rightarrow> (string \<times> string \<times> string) option" where
  "pat_match pat f = match_from pat [] f"

text \<open>Reconstruction of the index, in the words of the specification: the index written
  back with its recorded digit width, \<open>str(idx).zfill(width)\<close>, for an index that is not
  negative.\<close>

definition zfill :: "nat \<Rightarrow> string \<Rightarrow> string" where
  "zfill w s = replicate (w - length s) (CHR ''0'') @ s"

section \<open>find\_sequences\<close>

record SequenceItem =
  key :: string
  folder :: string
  prefix :: string
  ext :: string
  frames :: "string list"
  digits :: nat

type_synonym item = "int \<times> string \<times> nat"
type_synonym temp = "((string \<times> string) \<times> item list) list"

text \<open>The candidates of a directory: \<open>f.lower().endswith(SUPPORTED_EXTS)\<close>.\<close>

definition is_candidate :: "string \<Rightarrow> bool" where
  "is_candidate f = list_ex (endswith (py_lower f)) SUPPORTED_EXTS"

text \<open>The body of \<open>for pat in SEQ_PATTERNS\<close> for one file: the first pattern that matches
  (and whose index converts) gives the group \<open>(prefix, ext)\<close> and the entry
  \<open>(idx, f, len(idx_str))\<close>; a \<open>ValueError\<close> continues with the next pattern.\<close>

fun classify_with :: "pattern list \<Rightarrow> string \<Rightarrow> ((string \<times> string) \<times> item) option" where
  "classify_with [] f = None"
| "classify_with (pat # pats) f =
     (case pat_match pat f of
        None \<Rightarrow> classify_with pats f
      | Some (p, idx_str, e) \<Rightarrow>
          (case py_int idx_str of
             None \<Rightarrow> classify_with pats f
           | Some idx \<Rightarrow> Some ((p, py_lower e), (idx, f, length idx_str))))"

definition classify :: "string \<Rightarrow> ((string \<times> string) \<times> item) option" where
  "classify f = classify_with SEQ_PATTERNS f"

text \<open>\<open>temp.setdefault(k, []).append(v)\<close> on a dictionary kept in insertion order.\<close>

fun setdefault_append :: "(string \<times> string) \<Rightarrow> item \<Rightarrow> temp \<Rightarrow> temp" where
  "setdefault_append k v [] = [(k, [v])]"
| "setdefault_append k v ((k', vs) # rest) =
     (if k' = k then (k', vs @ [v]) # rest else (k', vs) # setdefault_append k v rest)"

text \<open>\<open>for f in candidates\<close>.\<close>

fun collect :: "string list \<Rightarrow> temp \<Rightarrow> temp" where
  "collect [] temp = temp"
| "collect (f # fs) temp =
     (case classify f of
        None \<Rightarrow> collect fs temp
      | Some (k, v) \<Rightarrow> collect fs (setdefault_append k v temp))"

definition seq_key :: "string \<Rightarrow> string \<Rightarrow> string \<Rightarrow> string" where
  "seq_key dirpath p e = path_join dirpath (p @ ''[##].'' @ e)"

text \<open>The \<open>SequenceItem\<close> built from a sorted group. \<open>items[0][2]\<close> is read only when the
  group holds three entries or more.\<close>

definition make_item :: "string \<Rightarrow> string \<Rightarrow> string \<Rightarrow> item list \<Rightarrow> SequenceItem" where
  "make_item dirpath p e items =
     \<lparr> key = seq_key dirpath p e, folder = dirpath, prefix = p, ext = e,
       frames = map (\<lambda>(_, fn, _). path_join dirpath fn) items,
       digits = (case items of [] \<Rightarrow> 0 | (_, _, w) # _ \<Rightarrow> w) \<rparr>"

text \<open>\<open>sequences[key] = value\<close> on a dictionary kept in insertion order: a key already
  present keeps its place.\<close>

fun dict_set :: "string \<Rightarrow> SequenceItem \<Rightarrow> (string \<times> SequenceItem) list \<Rightarrow> (string \<times> SequenceItem) list" where
  "dict_set k v [] = [(k, v)]"
| "dict_set k v ((k', v') # rest) =
     (if k' = k then (k, v) # rest else (k', v') # dict_set k v rest)"

text \<open>\<open>for (prefix, ext), items in temp.items()\<close>: \<open>items.sort(key=lambda x: x[0])\<close> is a
  stable sort.\<close>

fun emit_groups :: "string \<Rightarrow> temp \<Rightarrow> (string \<times> SequenceItem) list \<Rightarrow> (string \<times> SequenceItem) list" where
  "emit_groups dirpath [] sequences = sequences"
| "emit_groups dirpath (((p, e), items) # rest) sequences =
     (let items' = sort_key fst items in
      if 3 \<le> length items'
      then emit_groups dirpath rest
             (dict_set (seq_key dirpath p e) (make_item dirpath p e items') sequences)
      else emit_groups dirpath rest sequences)"

text \<open>One round of \<open>for dirpath, _, filenames in os.walk(root)\<close>.\<close>

definition scan_dir :: "string \<Rightarrow> string list \<Rightarrow> (string \<times> SequenceItem) list \<Rightarrow> (string \<times> SequenceItem) list" where
  "scan_dir dirpath filenames sequences =
     emit_groups dirpath (collect (filter is_candidate filenames) []) sequences"

fun scan_walk :: "(string \<times> string list) list \<Rightarrow> (string \<times> SequenceItem) list \<Rightarrow> (string \<times> SequenceItem) list" where
  "scan_walk [] sequences = sequences"
| "scan_walk ((dirpath, filenames) # rest) sequences =
     scan_walk rest (scan_dir dirpath filenames sequences)"

text \<open>\<open>find_sequences\<close>, over what \<open>os.walk(root)\<close> yields: the directories with their
  file names. \<open>sorted(..., key=lambda s: s.key.lower())\<close> is a stable sort.\<close>

definition find_sequences :: "(string \<times> string list) list \<Rightarrow> SequenceItem list" where
  "find_sequences walk = sort_key (\<lambda>s. py_lower (key s)) (map snd (scan_walk walk []))"

section \<open>Python floats\<close>

text \<open>
  A Python \<open>float\<close> is an IEEE 754 binary64 number. A finite float is modelled by the
  rational number it denotes, and every operation by the exact operation followed by
  \<open>fl\<close>, rounding to the nearest number with a significand of 53 bits, ties to the even
  significand. Overflow and subnormal numbers are left out: every quotient and product of
  integers below \<open>2^53\<close> in size lies within the normal range.
\<close>

text \<open>\<open>ilog2 n\<close> is the \<open>k\<close> with \<open>2^k \<le> n < 2^(k+1)\<close>, for \<open>n \<ge> 1\<close>.\<close>

function ilog2 :: "int \<Rightarrow> int" where
  "ilog2 n = (if n < 2 then 0 else 1 + ilog2 (n div 2))"
  by pat_completeness auto
termination
  by (relation "measure nat") auto

definition pow2 :: "int \<Rightarrow> rat" where
  "pow2 e = (if 0 \<le> e then 2 ^ nat e else 1 / 2 ^ nat (- e))"

text \<open>The binary exponent of a positive rational \<open>x = a / b\<close>: the \<open>k\<close> with
  \<open>2^k \<le> x < 2^(k+1)\<close>. It is \<open>ilog2 a - ilog2 b\<close> or one less.\<close>

definition float_exponent :: "rat \<Rightarrow> int" where
  "float_exponent x =
     (case quotient_of x of
        (a, b) \<Rightarrow>
          (let k = ilog2 a - ilog2 b
           in if pow2 k \<le> x then k else k - 1))"

text \<open>The nearest integer to a rational that is not negative, a tie going to the even
  one.\<close>

definition round_half_even :: "rat \<Rightarrow> int" where
  "round_half_even q =
     (let f = \<lfloor>q\<rfloor>; r = q - of_int f
      in if r < 1 / 2 then f
         else if 1 / 2 < r then f + 1
         else if even f then f else f + 1)"

definition fl :: "rat \<Rightarrow> rat" where
  "fl x =
     (if x = 0 then 0
      else
        let y = \<bar>x\<bar>;
            e = float_exponent y - 52;
            m = round_half_even (y / pow2 e)
        in (if x < 0 then - 1 else 1) * of_int m * pow2 e)"

text \<open>\<open>a / b\<close> on two \<open>int\<close>s (true division, correctly rounded), \<open>n * x\<close> with an
  \<open>int\<close> and a \<open>float\<close> (the \<open>int\<close> is converted first), and \<open>int(x)\<close>, which
  truncates towards zero. The divisor is never 0 where \<open>py_truediv\<close> is called below.\<close>

definition py_truediv :: "int \<Rightarrow> int \<Rightarrow> rat" where
  "py_truediv a b = fl (of_int a / of_int b)"

definition py_mul_int_float :: "int \<Rightarrow> rat \<Rightarrow> rat" where
  "py_mul_int_float n x = fl (fl (of_int n) * x)"

definition py_int_of_float :: "rat \<Rightarrow> int" where
  "py_int_of_float x = (if 0 \<le> x then \<lfloor>x\<rfloor> else \<lceil>x\<rceil>)"

section \<open>resize\_rgba\_contain\_premultiplied\<close>

text \<open>
  An RGBA image is its size \<open>(w, h)\<close> and its four bands, of a type \<open>'band\<close>.
  \<open>ImageChops.multiply\<close> and \<open>band.resize(size, Image.LANCZOS)\<close> are library
  functions on bands: the function takes them as the parameters \<open>multiply\<close> and
  \<open>resize\<close>. The image is in mode RGBA, as \<open>convert("RGBA")\<close> makes it.
\<close>

record 'band rgba_image =
  img_size :: "int \<times> int"
  band_r :: 'band
  band_g :: 'band
  band_b :: 'band
  band_a :: 'band

text \<open>Lines \<open>w, h = img.size\<close> to \<open>new_h = max(1, int(h * scale))\<close>.\<close>

definition contain_size :: "int \<times> int \<Rightarrow> int \<times> int \<Rightarrow> int \<times> int" where
  "contain_size sz box =
     (case sz of (w, h) \<Rightarrow> case box of (dst_w, dst_h) \<Rightarrow>
        (let scale = min (py_truediv dst_w (max 1 w)) (py_truediv dst_h (max 1 h));
             new_w = max 1 (py_int_of_float (py_mul_int_float w scale));
             new_h = max 1 (py_int_of_float (py_mul_int_float h scale))
         in (new_w, new_h)))"

definition resize_rgba_contain_premultiplied ::
    "('band \<Rightarrow> 'band \<Rightarrow> 'band) \<Rightarrow> ('band \<Rightarrow> int \<times> int \<Rightarrow> 'band) \<Rightarrow> 'band rgba_image \<Rightarrow> int \<times> int
      \<Rightarrow> 'band rgba_image" where
  "resize_rgba_contain_premultiplied multiply resize img box =
     (let new_size = contain_size (img_size img) box;
          r = resize (multiply (band_r img) (band_a img)) new_size;
          g = resize (multiply (band_g img) (band_a img)) new_size;
          b = resize (multiply (band_b img) (band_a img)) new_size;
          a = resize (band_a img) new_size
      in \<lparr> img_size = new_size, band_r = r, band_g = g, band_b = b, band_a = a \<rparr>)"

text \<open>The size in the words of the specification, in exact arithmetic: the scale is
  \<open>min(box.width / src.width, box.height / src.height)\<close>, the dimensions are floored,
  with a minimum of 1.\<close>

definition spec_contain_size :: "int \<times> int \<Rightarrow> int \<times> int \<Rightarrow> int \<times> int" where
  "spec_contain_size sz box =
     (case sz of (w, h) \<Rightarrow> case box of (bw, bh) \<Rightarrow>
        (let s = min (of_int bw / of_int w) (of_int bh / of_int h) :: rat
         in (max 1 \<lfloor>of_int w * s\<rfloor>, max 1 \<lfloor>of_int h * s\<rfloor>)))"

section \<open>ThumbCache\<close>

text \<open>
  Images are values of a type \<open>'img\<close>. \<open>ImageTk.PhotoImage(im)\<close> wraps an image; a file
  of the cache directory either decodes to an image or is one that \<open>Image.open\<close> fails on.
  The file system is a map from paths to files, with the paths that \<open>save\<close> can write.
  \<open>hashlib.sha1(b).hexdigest()\<close> is a library function: the operations take it as the
  parameter \<open>sha1\<close>, from bytes to the hexadecimal digest.
\<close>

datatype 'img photo = PhotoImage 'img

datatype 'img cache_file = Png 'img | Unreadable

record 'img disk =
  files :: "string \<rightharpoonup> 'img cache_file"
  writable :: "string \<Rightarrow> bool"

record 'img ThumbCache =
  mem :: "(string \<times> int \<times> int) \<rightharpoonup> 'img photo"
  root_dir :: string
  size_px :: int
  cache_dir :: string

text \<open>\<open>ThumbCache.__init__\<close>; \<open>os.makedirs(..., exist_ok=True)\<close> adds no file.\<close>

definition ThumbCache_init :: "string \<Rightarrow> int \<Rightarrow> 'img ThumbCache" where
  "ThumbCache_init rootdir sz =
     \<lparr> mem = Map.empty, root_dir = rootdir, size_px = sz,
       cache_dir = path_join rootdir ''.seqwall_cache'' \<rparr>"

definition cache_key :: "'img ThumbCache \<Rightarrow> string \<Rightarrow> int \<Rightarrow> string \<times> int \<times> int" where
  "cache_key c path frame_idx = (path, size_px c, frame_idx)"

text \<open>\<open>s.encode("utf-8")\<close> for code points below 256: one byte below 128, two above.\<close>

definition utf8_char :: "char \<Rightarrow> string" where
  "utf8_char c =
     (let n = (of_char c :: nat) in
      if n < 128 then [c] else [char_of (192 + n div 64), char_of (128 + n mod 64)])"

definition utf8 :: "string \<Rightarrow> string" where
  "utf8 s = concat (map utf8_char s)"

definition disk_path :: "(string \<Rightarrow> string) \<Rightarrow> 'img ThumbCache \<Rightarrow> string \<Rightarrow> int \<Rightarrow> string" where
  "disk_path sha1 c path frame_idx =
     (let h = sha1 (utf8 (path @ ''|'' @ py_str (size_px c) @ ''|'' @ py_str frame_idx))
      in path_join (cache_dir c) (h @ ''.png''))"

text \<open>\<open>ThumbCache.get\<close>: the result and the cache afterwards. A file that does not
  decode is a miss.\<close>

definition get :: "(string \<Rightarrow> string) \<Rightarrow> 'img ThumbCache \<Rightarrow> 'img disk \<Rightarrow> string \<Rightarrow> int
    \<Rightarrow> 'img photo option \<times> 'img ThumbCache" where
  "get sha1 c fs path frame_idx =
     (let k = cache_key c path frame_idx in
      case mem c k of
        Some ph \<Rightarrow> (Some ph, c)
      | None \<Rightarrow>
          (case files fs (disk_path sha1 c path frame_idx) of
             None \<Rightarrow> (None, c)
           | Some Unreadable \<Rightarrow> (None, c)
           | Some (Png im) \<Rightarrow>
               (Some (PhotoImage im), c\<lparr>mem := (mem c)(k \<mapsto> PhotoImage im)\<rparr>)))"

text \<open>\<open>ThumbCache.put\<close>: the handle, the cache and the file system afterwards. A failed
  \<open>save\<close> is ignored.\<close>

definition put :: "(string \<Rightarrow> string) \<Rightarrow> 'img ThumbCache \<Rightarrow> 'img disk \<Rightarrow> string \<Rightarrow> int \<Rightarrow> 'img
    \<Rightarrow> 'img photo \<times> 'img ThumbCache \<times> 'img disk" where
  "put sha1 c fs path frame_idx image_rgb =
     (let k = cache_key c path frame_idx;
          ph = PhotoImage image_rgb;
          c' = c\<lparr>mem := (mem c)(k \<mapsto> ph)\<rparr>;
          dp = disk_path sha1 c path frame_idx
      in (ph, c', if writable fs dp then fs\<lparr>files := (files fs)(dp \<mapsto> Png image_rgb)\<rparr> else fs))"

text \<open>A run of calls on one cache instance.\<close>

datatype 'img cache_op = Get string int | Put string int 'img

fun run_op :: "(string \<Rightarrow> string) \<Rightarrow> 'img cache_op \<Rightarrow> 'img ThumbCache \<times> 'img disk
    \<Rightarrow> 'img ThumbCache \<times> 'img disk" where
  "run_op sha1 (Get path frame_idx) (c, fs) = (snd (get sha1 c fs path frame_idx), fs)"
| "run_op sha1 (Put path frame_idx im) (c, fs) = snd (put sha1 c fs path frame_idx im)"

fun run_ops :: "(string \<Rightarrow> string) \<Rightarrow> 'img cache_op list \<Rightarrow> 'img ThumbCache \<times> 'img disk
    \<Rightarrow> 'img ThumbCache \<times> 'img disk" where
  "run_ops sha1 [] st = st"
| "run_ops sha1 (x # xs) st = run_ops sha1 xs (run_op sha1 x st)"

section \<open>SeqTile and the tick of SequenceWallApp\<close>

text \<open>
  A tile holds its sequence, its animation state, its place in the grid
  (\<open>winfo_y()\<close>, \<open>winfo_height()\<close>) and what its canvas shows. The application holds the
  tiles, the one cache every tile refers to, the file system, whether tiles were given a
  pool, and the jobs submitted to the pool that have not run yet, each with the number of
  its tile. \<open>codec path size\<close> stands for \<open>Image.open(path).convert("RGBA")\<close>,
  \<open>resize_rgba_contain_premultiplied\<close> and \<open>compose_on_bg\<close> in a row: the composed
  image, or \<open>None\<close> when one of them raises.
\<close>

datatype 'img canvas_item = Blank | Photo "'img photo" | ErrorText

record 'img SeqTile =
  seq :: SequenceItem
  tile_size :: int
  idx :: int
  running :: bool
  loading_first :: bool
  first_loaded :: bool
  winfo_y :: int
  winfo_height :: int
  canvas :: "'img canvas_item"

record 'img app =
  tiles :: "'img SeqTile list"
  thumb_cache :: "'img ThumbCache option"
  fs :: "'img disk"
  pool :: bool
  pool_jobs :: "(nat \<times> string \<times> int) list"

text \<open>\<open>SeqTile.__init__\<close>.\<close>

definition SeqTile_init :: "SequenceItem \<Rightarrow> int \<Rightarrow> int \<Rightarrow> int \<Rightarrow> 'img SeqTile" where
  "SeqTile_init s sz y h =
     \<lparr> seq = s, tile_size = sz, idx = 0, running = True, loading_first = False,
       first_loaded = False, winfo_y = y, winfo_height = h, canvas = Blank \<rparr>"

definition upd_tile :: "nat \<Rightarrow> ('img SeqTile \<Rightarrow> 'img SeqTile) \<Rightarrow> 'img app \<Rightarrow> 'img app" where
  "upd_tile i f w = w\<lparr>tiles := (tiles w)[i := f (tiles w ! i)]\<rparr>"

text \<open>\<open>_toggle\<close>.\<close>

definition toggle :: "nat \<Rightarrow> 'img app \<Rightarrow> 'img app" where
  "toggle i w = upd_tile i (\<lambda>t. t\<lparr>running := \<not> running t\<rparr>) w"

text \<open>\<open>_draw_photo\<close> and \<open>_draw_text\<close>.\<close>

definition draw_photo :: "nat \<Rightarrow> 'img photo \<Rightarrow> 'img app \<Rightarrow> 'img app" where
  "draw_photo i ph w = upd_tile i (\<lambda>t. t\<lparr>canvas := Photo ph\<rparr>) w"

definition draw_text :: "nat \<Rightarrow> 'img app \<Rightarrow> 'img app" where
  "draw_text i w = upd_tile i (\<lambda>t. t\<lparr>canvas := ErrorText\<rparr>) w"

text \<open>\<open>_load_and_cache\<close> of tile \<open>i\<close>: the body of a job.\<close>

definition load_and_cache :: "(string \<Rightarrow> int \<Rightarrow> 'img option) \<Rightarrow> (string \<Rightarrow> string) \<Rightarrow> nat \<Rightarrow> string \<Rightarrow> int
    \<Rightarrow> 'img app \<Rightarrow> 'img app" where
  "load_and_cache codec sha1 i path frame_idx w =
     (case codec path (tile_size (tiles w ! i)) of
        Some composed \<Rightarrow>
          (case thumb_cache w of
             Some c \<Rightarrow>
               (case put sha1 c (fs w) path frame_idx composed of
                  (ph, c', fs') \<Rightarrow>
                    upd_tile i (\<lambda>t. t\<lparr>first_loaded := True, loading_first := False\<rparr>)
                      (draw_photo i ph (w\<lparr>thumb_cache := Some c', fs := fs'\<rparr>)))
           | None \<Rightarrow>
               upd_tile i (\<lambda>t. t\<lparr>first_loaded := True, loading_first := False\<rparr>)
                 (draw_photo i (PhotoImage composed) w))
      | None \<Rightarrow> upd_tile i (\<lambda>t. t\<lparr>loading_first := False\<rparr>) (draw_text i w))"

text \<open>\<open>if self.pool: self.pool.submit(self._load_and_cache, path, k) else:
  self._load_and_cache(path, k)\<close>.\<close>

definition dispatch :: "(string \<Rightarrow> int \<Rightarrow> 'img option) \<Rightarrow> (string \<Rightarrow> string) \<Rightarrow> nat \<Rightarrow> string \<Rightarrow> int
    \<Rightarrow> 'img app \<Rightarrow> 'img app" where
  "dispatch codec sha1 i path frame_idx w =
     (if pool w then w\<lparr>pool_jobs := pool_jobs w @ [(i, path, frame_idx)]\<rparr>
      else load_and_cache codec sha1 i path frame_idx w)"

text \<open>\<open>self.cache.get(path, k)\<close> when the tile has a cache.\<close>

definition cache_get :: "(string \<Rightarrow> string) \<Rightarrow> string \<Rightarrow> int \<Rightarrow> 'img app \<Rightarrow> 'img photo option \<times> 'img app" where
  "cache_get sha1 path frame_idx w =
     (case thumb_cache w of
        None \<Rightarrow> (None, w)
      | Some c \<Rightarrow>
          (case get sha1 c (fs w) path frame_idx of
             (r, c') \<Rightarrow> (r, w\<lparr>thumb_cache := Some c'\<rparr>)))"

definition ensure_first_frame_loaded :: "(string \<Rightarrow> int \<Rightarrow> 'img option) \<Rightarrow> (string \<Rightarrow> string) \<Rightarrow> nat
    \<Rightarrow> 'img app \<Rightarrow> 'img app" where
  "ensure_first_frame_loaded codec sha1 i w =
     (let t = tiles w ! i in
      if first_loaded t \<or> loading_first t \<or> frames (seq t) = [] then w
      else
        let w1 = upd_tile i (\<lambda>t. t\<lparr>loading_first := True\<rparr>) w;
            path = hd (frames (seq t))
        in case cache_get sha1 path 0 w1 of
             (Some ph, w2) \<Rightarrow>
               upd_tile i (\<lambda>t. t\<lparr>first_loaded := True, loading_first := False\<rparr>)
                 (draw_photo i ph w2)
           | (None, w2) \<Rightarrow> dispatch codec sha1 i path 0 w2)"

text \<open>\<open>SeqTile.step\<close>. The new index lies within the frames, which are not empty there.\<close>

definition step :: "(string \<Rightarrow> int \<Rightarrow> 'img option) \<Rightarrow> (string \<Rightarrow> string) \<Rightarrow> nat \<Rightarrow> int
    \<Rightarrow> 'img app \<Rightarrow> 'img app" where
  "step codec sha1 i n w =
     (let t = tiles w ! i in
      if \<not> running t \<or> frames (seq t) = [] then w
      else if \<not> first_loaded t then ensure_first_frame_loaded codec sha1 i w
      else
        let k = (idx t + n) mod int (length (frames (seq t)));
            w1 = upd_tile i (\<lambda>t. t\<lparr>idx := k\<rparr>) w;
            path = frames (seq t) ! nat k
        in case cache_get sha1 path k w1 of
             (Some ph, w2) \<Rightarrow> draw_photo i ph w2
           | (None, w2) \<Rightarrow> dispatch codec sha1 i path k w2)"

text \<open>The test of \<open>_tick\<close>: \<open>ty < y1 and ty + th > y0\<close>, with
  \<open>th = t.winfo_height() or (t.size + 32)\<close>.\<close>

definition visible :: "int \<Rightarrow> int \<Rightarrow> 'img SeqTile \<Rightarrow> bool" where
  "visible y0 y1 t =
     (let ty = winfo_y t;
          th = (if winfo_height t \<noteq> 0 then winfo_height t else tile_size t + 32)
      in ty < y1 \<and> ty + th > y0)"

text \<open>The body of \<open>for t in self.tiles\<close> for tile \<open>i\<close>.\<close>

definition tick_tile :: "(string \<Rightarrow> int \<Rightarrow> 'img option) \<Rightarrow> (string \<Rightarrow> string) \<Rightarrow> int \<Rightarrow> int \<Rightarrow> int \<Rightarrow> bool
    \<Rightarrow> 'img app \<Rightarrow> nat \<Rightarrow> 'img app" where
  "tick_tile codec sha1 y0 y1 n play w i =
     (if visible y0 y1 (tiles w ! i) then
        let w1 = ensure_first_frame_loaded codec sha1 i w
        in if play then step codec sha1 i n w1 else w1
      else w)"

text \<open>\<open>_tick\<close>, given the visible range \<open>(y0, y1)\<close>, the value of \<open>frame_step\<close> and of
  \<open>animate_var\<close>.\<close>

definition tick :: "(string \<Rightarrow> int \<Rightarrow> 'img option) \<Rightarrow> (string \<Rightarrow> string) \<Rightarrow> int \<Rightarrow> int \<Rightarrow> int \<Rightarrow> bool
    \<Rightarrow> 'img app \<Rightarrow> 'img app" where
  "tick codec sha1 y0 y1 frame_step play w =
     (if tiles w = [] then w
      else foldl (tick_tile codec sha1 y0 y1 (max 1 frame_step) play) w [0..<length (tiles w)])"

text \<open>What happens to the application between and with the ticks: a tick, the end of
  the \<open>k\<close>-th pending job (workers finish in any order), a click on tile \<open>i\<close>.\<close>

datatype event = Tick int int int bool | JobDone nat | Click nat

fun run_event :: "(string \<Rightarrow> int \<Rightarrow> 'img option) \<Rightarrow> (string \<Rightarrow> string) \<Rightarrow> event \<Rightarrow> 'img app \<Rightarrow> 'img app" where
  "run_event codec sha1 (Tick y0 y1 frame_step play) w = tick codec sha1 y0 y1 frame_step play w"
| "run_event codec sha1 (JobDone k) w =
     (if k < length (pool_jobs w) then
        (case pool_jobs w ! k of
           (i, path, frame_idx) \<Rightarrow>
             load_and_cache codec sha1 i path frame_idx
               (w\<lparr>pool_jobs := take k (pool_jobs w) @ drop (Suc k) (pool_jobs w)\<rparr>))
      else w)"
| "run_event codec sha1 (Click i) w = (if i < length (tiles w) then toggle i w else w)"

fun run_events :: "(string \<Rightarrow> int \<Rightarrow> 'img option) \<Rightarrow> (string \<Rightarrow> string) \<Rightarrow> event list \<Rightarrow> 'img app \<Rightarrow> 'img app" where
  "run_events codec sha1 [] w = w"
| "run_events codec sha1 (e # es) w = run_events codec sha1 es (run_event codec sha1 e w)"

section \<open>The groups of a directory\<close>

text \<open>The entries that the files of a list contribute to the group \<open>k\<close>, in the order of
  the list, and the matched files of the group \<open>(p, e)\<close> among the candidates of a
  directory: the frames of the group.\<close>

definition entries_of :: "(string \<times> string) \<Rightarrow> string list \<Rightarrow> item list" where
  "entries_of k names =
     map (\<lambda>f. snd (the (classify f))) (filter (\<lambda>f. map_option fst (classify f) = Some k) names)"

definition group_files :: "string \<Rightarrow> string \<Rightarrow> string list \<Rightarrow> string list" where
  "group_files p e filenames =
     filter (\<lambda>f. map_option fst (classify f) = Some (p, e)) (filter is_candidate filenames)"

definition group_items :: "string \<Rightarrow> string \<Rightarrow> string list \<Rightarrow> item list" where
  "group_items p e filenames = entries_of (p, e) (filter is_candidate filenames)"

section \<open>Predicates for the proofs about the tick\<close>

text \<open>What no operation but a click changes in a tile.\<close>

definition fixed_part :: "'img SeqTile \<Rightarrow> SequenceItem \<times> int \<times> bool \<times> int \<times> int" where
  "fixed_part t = (seq t, tile_size t, running t, winfo_y t, winfo_height t)"

text \<open>\<open>w'\<close> comes from \<open>w\<close> by work on tile \<open>i\<close> alone: the other tiles are the same,
  tile \<open>i\<close> keeps its fixed part, and the jobs added belong to tile \<open>i\<close>.\<close>

definition acts_on :: "nat \<Rightarrow> 'img app \<Rightarrow> 'img app \<Rightarrow> bool" where
  "acts_on i w w' =
     (length (tiles w') = length (tiles w) \<and> pool w' = pool w \<and>
      (\<forall>j. j \<noteq> i \<longrightarrow> tiles w' ! j = tiles w ! j) \<and>
      fixed_part (tiles w' ! i) = fixed_part (tiles w ! i) \<and>
      (\<exists>new. pool_jobs w' = pool_jobs w @ new \<and> (\<forall>x\<in>set new. fst x = i)))"

text \<open>\<open>w'\<close> comes from \<open>w\<close> by the rounds of the loop of \<open>_tick\<close> for the tiles in \<open>K\<close>.\<close>

definition tick_rel :: "int \<Rightarrow> int \<Rightarrow> nat set \<Rightarrow> 'img app \<Rightarrow> 'img app \<Rightarrow> bool" where
  "tick_rel y0 y1 K w w' =
     (length (tiles w') = length (tiles w) \<and> pool w' = pool w \<and>
      (\<forall>j. fixed_part (tiles w' ! j) = fixed_part (tiles w ! j)) \<and>
      (\<forall>j. j \<notin> K \<or> \<not> visible y0 y1 (tiles w ! j) \<longrightarrow> tiles w' ! j = tiles w ! j) \<and>
      (\<forall>j. \<not> running (tiles w ! j) \<longrightarrow> idx (tiles w' ! j) = idx (tiles w ! j)) \<and>
      (\<exists>new. pool_jobs w' = pool_jobs w @ new \<and>
         (\<forall>x\<in>set new. fst x \<in> K \<and> visible y0 y1 (tiles w ! fst x))))"

text \<open>An application of two tiles, for the examples: the first within the visible range
  0..100, the second below it and paused; both have shown their first frame.\<close>

definition demo_seq :: SequenceItem where
  "demo_seq = \<lparr> key = ''/r/a[##].png'', folder = ''/r'', prefix = ''a'', ext = ''png'',
       frames = [''/r/a_001.png'', ''/r/a_002.png'', ''/r/a_003.png''], digits = 3 \<rparr>"

definition demo_app :: "nat app" where
  "demo_app =
     \<lparr> tiles = [(SeqTile_init demo_seq 200 0 232)\<lparr>first_loaded := True\<rparr>,
                (SeqTile_init demo_seq 200 480 232)\<lparr>first_loaded := True, running := False\<rparr>],
       thumb_cache = None,
       fs = \<lparr>files = Map.empty, writable = (\<lambda>p. False)\<rparr>,
       pool = True, pool_jobs = [] \<rparr>"

section \<open>Properties of the patterns\<close>

declare digits_of.simps [simp del]

lemma is_digit_char: "is_digit c \<Longrightarrow> digit_char (nat (digit_val c)) = c \<and> 0 \<le> digit_val c \<and> digit_val c \<le> 9"
proof -
  assume "is_digit c"
  then have r: "48 \<le> (of_char c :: nat)" "(of_char c :: nat) \<le> 57" by (simp_all add: is_digit_def)
  then have "nat (digit_val c) = of_char c - 48" by (simp add: digit_val_def)
  then have "48 + nat (digit_val c) = (of_char c :: nat)" using r by simp
  then have "digit_char (nat (digit_val c)) = c" by (simp add: digit_char_def)
  moreover have "0 \<le> digit_val c \<and> digit_val c \<le> 9" using r by (simp add: digit_val_def)
  ultimately show ?thesis by simp
qed

lemma digit_val_zero: "is_digit c \<Longrightarrow> digit_val c = 0 \<Longrightarrow> c = CHR ''0''"
proof -
  assume "is_digit c" "digit_val c = 0"
  then have "(of_char c :: nat) = 48" by (simp add: digit_val_def is_digit_def)
  then have "(of_char c :: nat) = of_char (CHR ''0'')" by simp
  then show ?thesis by (simp only: of_char_eq_iff)
qed

lemma digits_value_snoc: "digits_value acc (ds @ [c]) = 10 * digits_value acc ds + digit_val c"
  by (induction ds arbitrary: acc) simp_all

lemma digits_value_nonneg: "list_all is_digit ds \<Longrightarrow> 0 \<le> acc \<Longrightarrow> 0 \<le> digits_value acc ds"
proof (induction ds arbitrary: acc)
  case Nil
  then show ?case by simp
next
  case (Cons c ds)
  then have "0 \<le> digit_val c" using is_digit_char[of c] by simp
  with Cons.prems have "0 \<le> 10 * acc + digit_val c" by simp
  with Cons show ?case by simp
qed


lemma digits_value_zero:
  "list_all is_digit ds \<Longrightarrow> digits_value 0 ds = 0 \<Longrightarrow> ds = replicate (length ds) (CHR ''0'')"
proof (induction ds rule: rev_induct)
  case Nil
  then show ?case by simp
next
  case (snoc c ds)
  from snoc.prems have d: "list_all is_digit ds" "is_digit c" by simp_all
  have nn: "0 \<le> digits_value 0 ds" "0 \<le> digit_val c"
    using digits_value_nonneg[OF d(1)] is_digit_char[OF d(2)] by simp_all
  from snoc.prems(2) have "10 * digits_value 0 ds + digit_val c = 0"
    by (simp only: digits_value_snoc)
  with nn have z: "digits_value 0 ds = 0" "digit_val c = 0" by linarith+
  from digit_val_zero[OF d(2) z(2)] have c: "c = CHR ''0''" .
  have ih: "replicate (length ds) (CHR ''0'') = ds"
    using snoc.IH[OF d(1) z(1), symmetric] .
  have "replicate (length (ds @ [c])) (CHR ''0'') = replicate (length ds) (CHR ''0'') @ [CHR ''0'']"
    by (simp add: replicate_append_same)
  also have "\<dots> = ds @ [c]" by (simp only: ih c)
  finally show ?case by (rule sym)
qed

lemma zfill_digits:
  "list_all is_digit ds \<Longrightarrow> ds \<noteq> [] \<Longrightarrow>
     zfill (length ds) (digits_of (nat (digits_value 0 ds))) = ds"
proof (induction ds rule: rev_induct)
  case Nil
  then show ?case by simp
next
  case (snoc c ds)
  from snoc.prems have d: "list_all is_digit ds" "is_digit c" by simp_all
  define V where "V = nat (digits_value 0 ds)"
  define D where "D = nat (digit_val c)"
  have nn: "0 \<le> digits_value 0 ds" "0 \<le> digit_val c" "digit_val c \<le> 9"
    using digits_value_nonneg[OF d(1)] is_digit_char[OF d(2)] by simp_all
  have "digits_value 0 (ds @ [c]) = 10 * int V + int D"
    using nn by (simp add: digits_value_snoc V_def D_def)
  then have val: "nat (digits_value 0 (ds @ [c])) = 10 * V + D" by (simp add: nat_add_distrib)
  have D: "D < 10" using nn by (simp add: D_def)
  have c: "digit_char D = c" using is_digit_char[OF d(2)] by (simp add: D_def)
  show ?case
  proof (cases "V = 0")
    case True
    then have "digits_value 0 ds = 0" using nn by (simp add: V_def)
    from digits_value_zero[OF d(1) this, symmetric] have z: "replicate (length ds) (CHR ''0'') = ds" .
    have "digits_of (10 * V + D) = [c]"
      using True D c by (simp add: digits_of.simps)
    then show ?thesis unfolding val by (simp add: zfill_def z)
  next
    case False
    then have ne: "ds \<noteq> []" by (auto simp: V_def)
    from snoc.IH[OF d(1) ne] have ih: "zfill (length ds) (digits_of V) = ds" by (simp add: V_def)
    then have "length (replicate (length ds - length (digits_of V)) (CHR ''0'') @ digits_of V) = length ds"
      by (simp add: zfill_def)
    then have len: "length (digits_of V) \<le> length ds" by simp
    have "(10 * V + D) div 10 = V" "(10 * V + D) mod 10 = D" using D by simp_all
    then have "digits_of (10 * V + D) = digits_of V @ [c]"
      using False D c by (subst digits_of.simps) simp
    then show ?thesis unfolding val using ih len by (simp add: zfill_def)
  qed
qed


lemma match_ext_Some:
  "match_ext alts s = Some e \<Longrightarrow>
     py_lower e \<in> set alts \<and> (s = e \<or> s = e @ [newline])"
proof (induction alts)
  case Nil
  then show ?case by simp
next
  case (Cons a alts)
  show ?case
  proof (cases "py_lower (take (length a) s) = a \<and> at_end (drop (length a) s)")
    case True
    with Cons.prems have e: "e = take (length a) s" by simp
    from True have "drop (length a) s = [] \<or> drop (length a) s = [newline]"
      by (simp add: at_end_def)
    then have "s = e \<or> s = e @ [newline]"
    proof
      assume d: "drop (length a) s = []"
      have "take (length a) s @ [] = s"
        using append_take_drop_id [of "length a" s] unfolding d .
      with e show ?thesis by simp
    next
      assume d: "drop (length a) s = [newline]"
      have "take (length a) s @ [newline] = s"
        using append_take_drop_id [of "length a" s] unfolding d .
      with e show ?thesis by simp
    qed
    with True e show ?thesis by simp
  next
    case False
    with Cons show ?thesis by auto
  qed
qed

lemma match_index_Some:
  "match_index ns s = Some (i, e) \<Longrightarrow>
     length i \<in> set ns \<and> list_all is_digit i \<and> py_lower e \<in> set EXT_ALTS \<and>
     (s = i @ ''.'' @ e \<or> s = i @ ''.'' @ e @ [newline])"
proof (induction ns)
  case Nil
  then show ?case by simp
next
  case (Cons n ns)
  show ?case
  proof (cases "n \<le> length s \<and> list_all is_digit (take n s) \<and>
                (\<exists>r. drop n s = CHR ''.'' # r \<and> match_ext EXT_ALTS r \<noteq> None)")
    case True
    then obtain r e' where r: "drop n s = CHR ''.'' # r" and m: "match_ext EXT_ALTS r = Some e'"
      by auto
    from True r m Cons.prems have ie: "i = take n s" "e = e'" by auto
    have s: "s = take n s @ CHR ''.'' # r" using r by (metis append_take_drop_id)
    from match_ext_Some[OF m] have "py_lower e' \<in> set EXT_ALTS" "r = e' \<or> r = e' @ [newline]" by auto
    with True ie s show ?thesis by auto
  next
    case False
    then have "match_index (n # ns) s = match_index ns s"
      by (auto split: list.splits option.splits)
    with Cons show ?thesis by auto
  qed
qed


lemma match_tail_Some:
  "match_tail pat s = Some (i, e) \<Longrightarrow>
     \<exists>sep nl. s = sep @ i @ ''.'' @ e @ nl \<and>
       (sep = [] \<or> (\<exists>c. sep = [c] \<and> is_sep c)) \<and> (nl = [] \<or> nl = [newline]) \<and>
       3 \<le> length i \<and> length i \<le> 6 \<and> list_all is_digit i \<and> py_lower e \<in> set EXT_ALTS"
proof (cases pat)
  case SepPattern
  assume m: "match_tail pat s = Some (i, e)"
  with SepPattern obtain c r where s: "s = c # r" and c: "is_sep c"
    and mi: "match_index [6, 5, 4, 3] r = Some (i, e)"
    by (cases s) (auto split: if_splits)
  from match_index_Some[OF mi]
  have "length i \<in> set [6, 5, 4, 3]" "list_all is_digit i" "py_lower e \<in> set EXT_ALTS"
    "r = i @ ''.'' @ e @ [] \<or> r = i @ ''.'' @ e @ [newline]" by auto
  moreover then obtain nl where "r = i @ ''.'' @ e @ nl" "nl = [] \<or> nl = [newline]" by blast
  ultimately show ?thesis using s c by (intro exI[of _ "[c]"] exI[of _ nl]) auto
next
  case PlainPattern
  assume m: "match_tail pat s = Some (i, e)"
  with PlainPattern have mi: "match_index [6, 5, 4, 3] s = Some (i, e)" by simp
  from match_index_Some[OF mi]
  have "length i \<in> set [6, 5, 4, 3]" "list_all is_digit i" "py_lower e \<in> set EXT_ALTS"
    "s = i @ ''.'' @ e @ [] \<or> s = i @ ''.'' @ e @ [newline]" by auto
  moreover then obtain nl where "s = i @ ''.'' @ e @ nl" "nl = [] \<or> nl = [newline]" by blast
  ultimately show ?thesis by (intro exI[of _ "[]"] exI[of _ nl]) auto
qed

lemma match_from_Some:
  "match_from pat acc s = Some (p, i, e) \<Longrightarrow>
     \<exists>q. p = rev acc @ q \<and> newline \<notin> set q \<and> (\<exists>t. s = q @ t \<and> match_tail pat t = Some (i, e))"
proof (induction pat acc s rule: match_from.induct)
  case (1 pat acc)
  then show ?case by (auto split: option.splits)
next
  case (2 pat acc c r)
  show ?case
  proof (cases "match_tail pat (c # r)")
    case None
    with "2.prems" have c: "c \<noteq> newline" and m: "match_from pat (c # acc) r = Some (p, i, e)"
      by (auto split: if_splits)
    from "2.IH"[OF None c m] obtain q t where
      "p = rev (c # acc) @ q" "newline \<notin> set q" "r = q @ t" "match_tail pat t = Some (i, e)" by auto
    with c show ?thesis by (intro exI[of _ "c # q"]) auto
  next
    case (Some a)
    with "2.prems" have "a = (i, e)" "p = rev acc" by (auto split: prod.splits)
    with Some show ?thesis by (intro exI[of _ "[]"]) auto
  qed
qed



lemma classify_with_Some:
  "classify_with pats f = Some ((p, e), (ix, fn, w)) \<Longrightarrow>
     fn = f \<and> (\<exists>pat i e0. pat \<in> set pats \<and> pat_match pat f = Some (p, i, e0) \<and>
        py_int i = Some ix \<and> w = length i \<and> e = py_lower e0)"
proof (induction pats)
  case Nil
  then show ?case by simp
next
  case (Cons pat pats)
  show ?case
  proof (cases "pat_match pat f")
    case None
    with Cons show ?thesis by auto
  next
    case (Some g)
    note pm = Some
    obtain p' i e0 where g: "g = (p', i, e0)" by (cases g)
    show ?thesis
    proof (cases "py_int i")
      case None
      with Some g Cons show ?thesis by auto
    next
      case (Some ix')
      with pm g Cons.prems
      have "p = p'" "e = py_lower e0" "ix = ix'" "fn = f" "w = length i" by simp_all
      with Some pm g show ?thesis by auto
    qed
  qed
qed

lemma lower_newline: "lower_char newline = newline"
  by (simp add: lower_char_def newline_def)

lemma candidate_no_newline:
  assumes "is_candidate (x @ [newline])"
  shows False
proof -
  from assms obtain t where t: "t \<in> set SUPPORTED_EXTS" and e: "endswith (py_lower (x @ [newline])) t"
    by (auto simp: is_candidate_def list_ex_iff)
  have pl: "py_lower (x @ [newline]) = py_lower x @ [newline]"
    by (simp add: py_lower_def lower_newline)
  from t have ne: "t \<noteq> []" and l: "last t \<noteq> newline"
    by (auto simp: SUPPORTED_EXTS_def newline_def)
  from e have "drop (length (py_lower x @ [newline]) - length t) (py_lower x @ [newline]) = t"
    and len: "length t \<le> length (py_lower x @ [newline])"
    unfolding endswith_def pl by simp_all
  then have "last t = last (py_lower x @ [newline])"
    using ne by (metis last_drop drop_eq_Nil not_le)
  with l show False by simp
qed

lemma classify_Some:
  assumes "classify f = Some ((p, e), (ix, fn, w))"
  shows "fn = f \<and> (\<exists>sep i e0 nl. f = p @ sep @ i @ ''.'' @ e0 @ nl \<and>
           (sep = [] \<or> (\<exists>c. sep = [c] \<and> is_sep c)) \<and> (nl = [] \<or> nl = [newline]) \<and>
           length i = w \<and> 3 \<le> w \<and> w \<le> 6 \<and> list_all is_digit i \<and>
           digits_value 0 i = ix \<and> py_lower e0 = e \<and> e \<in> set EXT_ALTS)"
proof -
  from classify_with_Some[OF assms[unfolded classify_def]]
  obtain pat i e0 where fn: "fn = f" and m: "pat_match pat f = Some (p, i, e0)"
    and pi: "py_int i = Some ix" and w: "w = length i" and e: "e = py_lower e0" by blast
  from match_from_Some[OF m[unfolded pat_match_def]]
  obtain t where f: "f = p @ t" and mt: "match_tail pat t = Some (i, e0)" by auto
  from match_tail_Some[OF mt] obtain sep nl where
    t: "t = sep @ i @ ''.'' @ e0 @ nl" and sep: "sep = [] \<or> (\<exists>c. sep = [c] \<and> is_sep c)"
    and nl: "nl = [] \<or> nl = [newline]" and i: "3 \<le> length i" "length i \<le> 6" "list_all is_digit i"
    and e0: "py_lower e0 \<in> set EXT_ALTS" by blast
  from pi have "digits_value 0 i = ix" by (auto simp: py_int_def split: if_splits)
  with fn f t sep nl i e0 w e show ?thesis by blast
qed

lemma shot_parse:
  "classify ''shot_0007.png'' = Some ((''shot'', ''png''), (7, ''shot_0007.png'', 4))"
  by code_simp

text \<open>
  Claim C1, as the code has it. A candidate file name that a pattern matches is parsed to
  \<open>(prefix, ext)\<close> and \<open>(idx, name, width)\<close> such that the name is the prefix, then
  nothing or one separator, then a digit string of the recorded width whose value is the
  index, then a dot and the extension; the width lies between 3 and 6; and the index
  written back with that width has that width and parses to the same index: the numeric
  value round-trips. In particular \<open>shot_0007.png\<close> parses to the prefix \<open>shot\<close>, the
  index 7 and the width 4.
\<close>

theorem parse_reconstruct_roundtrip:
  assumes "is_candidate f" and "classify f = Some ((p, e), (ix, fn, w))"
  shows "(fn = f \<and> 3 \<le> w \<and> w \<le> 6 \<and> 0 \<le> ix \<and> e \<in> set EXT_ALTS \<and>
          (\<exists>sep i e0. (sep = [] \<or> (\<exists>c. sep = [c] \<and> is_sep c)) \<and> py_lower e0 = e \<and>
             length i = w \<and> py_int i = Some ix \<and> f = p @ sep @ i @ ''.'' @ e0) \<and>
          py_int (zfill w (py_str ix)) = Some ix \<and> length (zfill w (py_str ix)) = w) \<and>
         classify ''shot_0007.png'' = Some ((''shot'', ''png''), (7, ''shot_0007.png'', 4))"
proof -
  from classify_Some[OF assms(2)] obtain sep i e0 nl where
    fn: "fn = f" and f: "f = p @ sep @ i @ ''.'' @ e0 @ nl"
    and sep: "sep = [] \<or> (\<exists>c. sep = [c] \<and> is_sep c)" and nl: "nl = [] \<or> nl = [newline]"
    and w: "length i = w" "3 \<le> w" "w \<le> 6" and d: "list_all is_digit i"
    and v: "digits_value 0 i = ix" and e: "py_lower e0 = e" "e \<in> set EXT_ALTS" by blast
  have nl0: "nl = []"
  proof (rule ccontr)
    assume "nl \<noteq> []"
    with nl f have "f = (p @ sep @ i @ ''.'' @ e0) @ [newline]" by simp
    with assms(1) candidate_no_newline show False by metis
  qed
  from w have ne: "i \<noteq> []" by auto
  have nn: "0 \<le> ix" using digits_value_nonneg[OF d, of 0] v by simp
  have z: "zfill w (py_str ix) = i"
    using zfill_digits[OF d ne] nn v w by (simp add: py_str_def)
  have pi0: "py_int i = Some ix" using d ne v by (simp add: py_int_def)
  then have pi: "py_int (zfill w (py_str ix)) = Some ix" by (simp only: z)
  have lz: "length (zfill w (py_str ix)) = w" using w(1) by (simp only: z)
  have "f = p @ sep @ i @ ''.'' @ e0" using f nl0 by simp
  with sep e w(1) pi0 have "\<exists>sep i e0. (sep = [] \<or> (\<exists>c. sep = [c] \<and> is_sep c)) \<and> py_lower e0 = e \<and>
             length i = w \<and> py_int i = Some ix \<and> f = p @ sep @ i @ ''.'' @ e0" by blast
  with fn w nn e pi lz shot_parse show ?thesis by simp
qed

theorem parse_reconstruct_roundtrip_witness:
  "is_candidate ''shot_0007.png'' \<and>
   classify ''shot_0007.png'' = Some ((''shot'', ''png''), (7, ''shot_0007.png'', 4)) \<and>
   py_int (zfill 4 (py_str 7)) = Some 7 \<and> length (zfill 4 (py_str 7)) = 4 \<and>
   (\<exists>sep i e0. (sep = [] \<or> (\<exists>c. sep = [c] \<and> is_sep c)) \<and> py_lower e0 = ''png'' \<and>
      length i = 4 \<and> py_int i = Some 7 \<and> ''shot_0007.png'' = ''shot'' @ sep @ i @ ''.'' @ e0)"
proof -
  have h1: "is_candidate ''shot_0007.png''" by code_simp
  have h2: "classify ''shot_0007.png'' = Some ((''shot'', ''png''), (7, ''shot_0007.png'', 4))"
    by code_simp
  from parse_reconstruct_roundtrip [OF h1 h2] h1 h2 show ?thesis by blast
qed

text \<open>The claim as written gives the prefix \<open>shot_\<close>; the first pattern leaves the
  separator outside the group.\<close>

theorem shot_prefix_counterexample:
  "map_option (fst \<circ> fst) (classify ''shot_0007.png'') = Some ''shot'' \<and>
   map_option (fst \<circ> fst) (classify ''shot_0007.png'') \<noteq> Some ''shot_''"
  by code_simp

lemma lower_dot: "lower_char (CHR ''.'') = CHR ''.''"
  by (simp add: lower_char_def)

lemma ext_no_dot:
  assumes "py_lower e0 \<in> set EXT_ALTS"
  shows "CHR ''.'' \<notin> set e0"
proof
  assume "CHR ''.'' \<in> set e0"
  then have "lower_char (CHR ''.'') \<in> set (py_lower e0)" by (simp add: py_lower_def)
  then have "CHR ''.'' \<in> set (py_lower e0)" by (simp only: lower_dot)
  with assms show False by (auto simp: EXT_ALTS_def)
qed

lemma split_last_dot:
  assumes "a @ CHR ''.'' # b = a' @ CHR ''.'' # b'"
    and "CHR ''.'' \<notin> set b" and "CHR ''.'' \<notin> set b'"
  shows "a = a' \<and> b = b'"
  using assms
proof (induction a arbitrary: a')
  case Nil
  then show ?case by (cases a') auto
next
  case (Cons x a)
  show ?case
  proof (cases a')
    case Nil
    with Cons.prems show ?thesis by auto
  next
    case (Cons y a2)
    with Cons.prems Cons.IH[of a2] show ?thesis by auto
  qed
qed

lemma short_index_rejected:
  assumes ds: "list_all is_digit ds" "length ds < 3"
    and t: "t = [] \<or> \<not> is_digit (last t)"
    and x: "CHR ''.'' \<notin> set x"
  shows "classify (t @ ds @ ''.'' @ x) = None"
proof (rule ccontr)
  assume "classify (t @ ds @ ''.'' @ x) \<noteq> None"
  then obtain p e ix fn w where c: "classify (t @ ds @ ''.'' @ x) = Some ((p, e), (ix, fn, w))"
    by (cases "classify (t @ ds @ ''.'' @ x)") auto
  from classify_Some[OF c] obtain sep i e0 nl where
    f: "t @ ds @ ''.'' @ x = p @ sep @ i @ ''.'' @ e0 @ nl"
    and nl: "nl = [] \<or> nl = [newline]"
    and i: "3 \<le> length i" "list_all is_digit i"
    and e0: "py_lower e0 \<in> set EXT_ALTS"
    by metis
  from nl ext_no_dot[OF e0] have nd: "CHR ''.'' \<notin> set (e0 @ nl)"
    by (auto simp: newline_def)
  from f have "(t @ ds) @ CHR ''.'' # x = (p @ sep @ i) @ CHR ''.'' # (e0 @ nl)" by simp
  from split_last_dot[OF this x nd] have eq: "t @ ds = (p @ sep) @ i" by simp
  define k where "k = length i - length ds"
  from i(1) ds(2) have k: "0 < k" "length i = k + length ds" by (simp_all add: k_def)
  from eq have "drop (length (p @ sep)) (t @ ds) = i" by simp
  moreover from eq k have lt: "length t = length (p @ sep) + k" 
    by (metis add.assoc add_right_cancel length_append)
  ultimately have "i = drop (length (p @ sep)) t @ ds" by simp
  moreover from lt k(1) have "drop (length (p @ sep)) t \<noteq> []" by simp
  ultimately have "last (drop (length (p @ sep)) t) \<in> set i" by (metis UnI1 last_in_set set_append)
  moreover from lt k(1) have "last (drop (length (p @ sep)) t) = last t" "t \<noteq> []" by auto
  ultimately have "is_digit (last t)" "t \<noteq> []" using i(2) by (auto simp: list_all_iff)
  with t show False by simp
qed

lemma match_ext_complete: "e \<in> set EXT_ALTS \<Longrightarrow> match_ext EXT_ALTS e \<noteq> None"
proof -
  have c: "match_ext EXT_ALTS ''png'' \<noteq> None" "match_ext EXT_ALTS ''jpg'' \<noteq> None"
    "match_ext EXT_ALTS ''jpeg'' \<noteq> None" "match_ext EXT_ALTS ''bmp'' \<noteq> None"
    "match_ext EXT_ALTS ''tif'' \<noteq> None" "match_ext EXT_ALTS ''tiff'' \<noteq> None"
    by code_simp+
  assume "e \<in> set EXT_ALTS"
  then have "e = ''png'' \<or> e = ''jpg'' \<or> e = ''jpeg'' \<or> e = ''bmp'' \<or> e = ''tif'' \<or> e = ''tiff''"
    by (simp add: EXT_ALTS_def)
  with c show ?thesis by blast
qed

lemma match_index_six:
  assumes "list_all is_digit i" and "length i = 6" and "e \<in> set EXT_ALTS"
  shows "match_index [6, 5, 4, 3] (i @ ''.'' @ e) \<noteq> None"
proof -
  from match_ext_complete[OF assms(3)] obtain e' where "match_ext EXT_ALTS e = Some e'" by auto
  with assms(1,2) show ?thesis by simp
qed


lemma match_from_complete:
  "match_tail pat t2 \<noteq> None \<Longrightarrow> newline \<notin> set t1 \<Longrightarrow> match_from pat acc (t1 @ t2) \<noteq> None"
proof (induction t1 arbitrary: acc)
  case Nil
  from Nil(1) obtain r where r: "match_tail pat t2 = Some r" by auto
  obtain i e where "r = (i, e)" by (cases r)
  with r show ?case by (cases t2) (simp_all del: match_tail.simps)
next
  case (Cons c t1)
  from Cons.prems have c: "c \<noteq> newline" "newline \<notin> set t1" by auto
  show ?case
  proof (cases "match_tail pat (c # t1 @ t2)")
    case None
    with c Cons.IH[OF Cons.prems(1) c(2), of "c # acc"] show ?thesis
      by (simp del: match_tail.simps)
  next
    case (Some r)
    obtain i e where "r = (i, e)" by (cases r)
    with Some show ?thesis by (simp del: match_tail.simps)
  qed
qed

lemma pat_match_index_converts:
  assumes "pat_match pat f = Some (p, i, e)"
  shows "py_int i \<noteq> None"
proof -
  from match_from_Some[OF assms[unfolded pat_match_def]]
  obtain t where "match_tail pat t = Some (i, e)" by auto
  from match_tail_Some[OF this] have "3 \<le> length i" "list_all is_digit i" by auto
  then show ?thesis by (auto simp: py_int_def)
qed

lemma classify_complete:
  assumes "pat_match PlainPattern f \<noteq> None"
  shows "classify f \<noteq> None"
proof -
  from assms obtain p i e where m: "pat_match PlainPattern f = Some (p, i, e)" by auto
  from pat_match_index_converts[OF m] obtain ix where ix: "py_int i = Some ix" by auto
  show ?thesis
  proof (cases "pat_match SepPattern f")
    case None
    with m ix show ?thesis by (simp add: classify_def SEQ_PATTERNS_def)
  next
    case (Some g)
    obtain p' i' e' where g: "g = (p', i', e')" by (cases g)
    from pat_match_index_converts[OF Some[unfolded g]] obtain ix' where "py_int i' = Some ix'" by auto
    with Some g show ?thesis by (simp add: classify_def SEQ_PATTERNS_def)
  qed
qed

lemma digit_not_newline: "is_digit c \<Longrightarrow> c \<noteq> newline"
  by (auto simp: is_digit_def newline_def)

lemma long_index_classified:
  assumes ds: "list_all is_digit ds" "6 \<le> length ds"
    and e: "e \<in> set EXT_ALTS" and t: "newline \<notin> set t"
  shows "classify (t @ ds @ ''.'' @ e) \<noteq> None"
proof -
  define d1 where "d1 = take (length ds - 6) ds"
  define d2 where "d2 = drop (length ds - 6) ds"
  have split: "ds = d1 @ d2" by (simp add: d1_def d2_def)
  from ds(2) have l2: "length d2 = 6" by (simp add: d2_def)
  from ds(1) split have dig: "list_all is_digit d1" "list_all is_digit d2"
    by (metis list_all_append)+
  from dig(1) have "newline \<notin> set d1" using digit_not_newline by (auto simp: list_all_iff)
  with t have nn: "newline \<notin> set (t @ d1)" by simp
  from match_index_six[OF dig(2) l2 e] have "match_tail PlainPattern (d2 @ ''.'' @ e) \<noteq> None"
    by simp
  from match_from_complete[OF this nn, of "[]"]
  have "pat_match PlainPattern ((t @ d1) @ d2 @ ''.'' @ e) \<noteq> None" by (simp add: pat_match_def)
  then have "pat_match PlainPattern (t @ ds @ ''.'' @ e) \<noteq> None" by (simp add: split)
  then show ?thesis by (rule classify_complete)
qed



text \<open>
  Claim C2. A name with fewer than three digits before its last dot is never classified
  (\<open>short_index_rejected\<close>). A name with more than six digits before a recognised
  extension is classified all the same (\<open>long_index_classified\<close>): for
  \<open>shot_1234567.png\<close> the first pattern fails and the second matches, its prefix taking
  the separator and the first digit, its index the last six digits.
\<close>

theorem seven_digits_classified:
  "is_candidate ''shot_1234567.png'' \<and>
   pat_match SepPattern ''shot_1234567.png'' = None \<and>
   classify ''shot_1234567.png'' = Some ((''shot_1'', ''png''), (234567, ''shot_1234567.png'', 6))"
  by code_simp

text \<open>
  Claim C10. The list that \<open>find_sequences\<close> returns is in ascending order of the keys
  in lower case, whatever the walk yields.
\<close>

theorem find_sequences_sorted_by_lower_key:
  "sorted (map (\<lambda>s. py_lower (key s)) (find_sequences walk))"
  by (simp add: find_sequences_def)

section \<open>Properties of the discovery\<close>

lemma setdefault_append_map_of:
  "map_of (setdefault_append k v temp) k' =
     (if k' = k then Some ((case map_of temp k of None \<Rightarrow> [] | Some vs \<Rightarrow> vs) @ [v])
      else map_of temp k')"
  by (induction temp) auto

lemma setdefault_append_keys:
  "fst ` set (setdefault_append k v temp) = insert k (fst ` set temp)"
proof (induction temp)
  case Nil
  show ?case by simp
next
  case (Cons a temp)
  obtain k' vs where a: "a = (k', vs)" by (cases a)
  show ?case
  proof (cases "k' = k")
    case True
    with a show ?thesis by simp
  next
    case False
    with a Cons show ?thesis by (simp add: insert_commute)
  qed
qed

lemma setdefault_append_distinct:
  "distinct (map fst temp) \<Longrightarrow> distinct (map fst (setdefault_append k v temp))"
proof (induction temp)
  case Nil
  show ?case by simp
next
  case (Cons a temp)
  obtain k' vs where a: "a = (k', vs)" by (cases a)
  show ?case
  proof (cases "k' = k")
    case True
    with a Cons.prems show ?thesis by simp
  next
    case False
    with a Cons show ?thesis by (simp add: setdefault_append_keys)
  qed
qed

lemma entries_of_Cons:
  "entries_of k (f # cs) =
     (case classify f of
        None \<Rightarrow> entries_of k cs
      | Some (k', v) \<Rightarrow> if k' = k then v # entries_of k cs else entries_of k cs)"
  by (auto simp: entries_of_def split: option.splits)

lemma collect_map_of:
  "map_of (collect cs temp) k =
     (if entries_of k cs = [] then map_of temp k
      else Some ((case map_of temp k of None \<Rightarrow> [] | Some vs \<Rightarrow> vs) @ entries_of k cs))"
proof (induction cs arbitrary: temp)
  case Nil
  show ?case by (simp add: entries_of_def)
next
  case (Cons f cs)
  show ?case
  proof (cases "classify f")
    case None
    with Cons show ?thesis by (simp add: entries_of_Cons)
  next
    case (Some kv)
    obtain k' v where kv: "kv = (k', v)" by (cases kv)
    from Some kv have c: "collect (f # cs) temp = collect cs (setdefault_append k' v temp)" by simp
    show ?thesis unfolding c Cons.IH
      using Some kv by (simp add: entries_of_Cons setdefault_append_map_of)
  qed
qed

lemma collect_distinct:
  "distinct (map fst temp) \<Longrightarrow> distinct (map fst (collect cs temp))"
proof (induction cs arbitrary: temp)
  case Nil
  then show ?case by simp
next
  case (Cons f cs)
  then show ?case
    by (cases "classify f") (auto simp: setdefault_append_distinct)
qed

lemma collect_groups:
  "((p, e), items) \<in> set (collect cs []) \<longleftrightarrow> (entries_of (p, e) cs \<noteq> [] \<and> items = entries_of (p, e) cs)"
proof -
  have d: "distinct (map fst (collect cs []))" by (rule collect_distinct) simp
  have "((p, e), items) \<in> set (collect cs []) \<longleftrightarrow> map_of (collect cs []) (p, e) = Some items"
    using d by simp
  then show ?thesis by (auto simp: collect_map_of)
qed


lemma dict_set_map_of:
  "map_of (dict_set k v xs) k' = (if k' = k then Some v else map_of xs k')"
  by (induction xs) auto

lemma dict_set_keys: "fst ` set (dict_set k v xs) = insert k (fst ` set xs)"
proof (induction xs)
  case Nil
  show ?case by simp
next
  case (Cons a xs)
  obtain k' v' where a: "a = (k', v')" by (cases a)
  show ?case
  proof (cases "k' = k")
    case True
    with a show ?thesis by simp
  next
    case False
    with a Cons show ?thesis by (simp add: insert_commute)
  qed
qed

lemma dict_set_distinct: "distinct (map fst xs) \<Longrightarrow> distinct (map fst (dict_set k v xs))"
proof (induction xs)
  case Nil
  show ?case by simp
next
  case (Cons a xs)
  obtain k' v' where a: "a = (k', v')" by (cases a)
  show ?case
  proof (cases "k' = k")
    case True
    with a Cons.prems show ?thesis by simp
  next
    case False
    with a Cons show ?thesis by (simp add: dict_set_keys)
  qed
qed

lemma dict_set_subset: "set (dict_set k v xs) \<subseteq> insert (k, v) (set xs)"
proof (induction xs)
  case Nil
  show ?case by simp
next
  case (Cons a xs)
  obtain k' v' where a: "a = (k', v')" by (cases a)
  show ?case
  proof (cases "k' = k")
    case True
    with a show ?thesis by auto
  next
    case False
    with a Cons show ?thesis by auto
  qed
qed

lemma emit_groups_Cons:
  "emit_groups d (((p, e), items) # rest) seqs =
     emit_groups d rest
       (if 3 \<le> length items
        then dict_set (seq_key d p e) (make_item d p e (sort_key fst items)) seqs else seqs)"
  by (simp add: Let_def)

lemma emit_groups_origin:
  "(kk, s) \<in> set (emit_groups d temp seqs) \<Longrightarrow>
     (kk, s) \<in> set seqs \<or>
     (\<exists>p e items. ((p, e), items) \<in> set temp \<and> 3 \<le> length items \<and>
        kk = seq_key d p e \<and> s = make_item d p e (sort_key fst items))"
proof (induction temp arbitrary: seqs)
  case Nil
  then show ?case by simp
next
  case (Cons g rest)
  obtain p e items where g: "g = ((p, e), items)" by (cases g) auto
  define seqs' where "seqs' = (if 3 \<le> length items
        then dict_set (seq_key d p e) (make_item d p e (sort_key fst items)) seqs else seqs)"
  from Cons.prems g have "(kk, s) \<in> set (emit_groups d rest seqs')"
    by (simp only: emit_groups_Cons seqs'_def)
  from Cons.IH[OF this] show ?case
  proof
    assume "(kk, s) \<in> set seqs'"
    then have "(kk, s) \<in> set seqs \<or>
        (3 \<le> length items \<and> kk = seq_key d p e \<and> s = make_item d p e (sort_key fst items))"
      using dict_set_subset[of "seq_key d p e" "make_item d p e (sort_key fst items)" seqs]
      by (auto simp: seqs'_def split: if_splits)
    with g show ?thesis by auto
  next
    assume "\<exists>p e items. ((p, e), items) \<in> set rest \<and> 3 \<le> length items \<and>
        kk = seq_key d p e \<and> s = make_item d p e (sort_key fst items)"
    then show ?thesis by auto
  qed
qed

lemma emit_groups_keys:
  "fst ` set (emit_groups d temp seqs) =
     fst ` set seqs \<union> {seq_key d p e | p e items. ((p, e), items) \<in> set temp \<and> 3 \<le> length items}"
proof (induction temp arbitrary: seqs)
  case Nil
  show ?case by simp
next
  case (Cons g rest)
  obtain p e items where g: "g = ((p, e), items)" by (cases g) auto
  show ?case
  proof (cases "3 \<le> length items")
    case True
    have "fst ` set (emit_groups d (g # rest) seqs) =
        insert (seq_key d p e) (fst ` set seqs) \<union>
          {seq_key d p e | p e items. ((p, e), items) \<in> set rest \<and> 3 \<le> length items}"
      unfolding g emit_groups_Cons using True by (simp add: Cons.IH dict_set_keys)
    also have "\<dots> = fst ` set seqs \<union>
          {seq_key d p e | p e items. ((p, e), items) \<in> set (g # rest) \<and> 3 \<le> length items}"
      using True g by auto
    finally show ?thesis .
  next
    case False
    have "fst ` set (emit_groups d (g # rest) seqs) =
        fst ` set seqs \<union>
          {seq_key d p e | p e items. ((p, e), items) \<in> set rest \<and> 3 \<le> length items}"
      unfolding g emit_groups_Cons using False by (simp add: Cons.IH)
    also have "\<dots> = fst ` set seqs \<union>
          {seq_key d p e | p e items. ((p, e), items) \<in> set (g # rest) \<and> 3 \<le> length items}"
      using False g by auto
    finally show ?thesis .
  qed
qed

lemma emit_groups_distinct:
  "distinct (map fst seqs) \<Longrightarrow> distinct (map fst (emit_groups d temp seqs))"
proof (induction temp arbitrary: seqs)
  case Nil
  then show ?case by simp
next
  case (Cons g rest)
  obtain p e items where g: "g = ((p, e), items)" by (cases g) auto
  show ?case unfolding g emit_groups_Cons
    by (rule Cons.IH) (simp add: Cons.prems dict_set_distinct)
qed

lemma emit_groups_skip:
  "(\<And>p e items. ((p, e), items) \<in> set temp \<Longrightarrow> 3 \<le> length items \<Longrightarrow> seq_key d p e \<noteq> kk) \<Longrightarrow>
     map_of (emit_groups d temp seqs) kk = map_of seqs kk"
proof (induction temp arbitrary: seqs)
  case Nil
  show ?case by simp
next
  case (Cons g rest)
  obtain p e items where g: "g = ((p, e), items)" by (cases g) auto
  have r: "map_of (emit_groups d rest seqs') kk = map_of seqs' kk" for seqs'
    by (rule Cons.IH) (use Cons.prems in auto)
  have "3 \<le> length items \<longrightarrow> kk \<noteq> seq_key d p e"
    using Cons.prems[of p e items] g by auto
  then show ?case unfolding g emit_groups_Cons r
    by (simp add: dict_set_map_of)
qed

lemma emit_groups_value:
  assumes "distinct (map fst temp)"
    and "\<And>p e items p' e' items'. ((p, e), items) \<in> set temp \<Longrightarrow> ((p', e'), items') \<in> set temp \<Longrightarrow>
           seq_key d p e = seq_key d p' e' \<Longrightarrow> p = p' \<and> e = e'"
    and "((p, e), items) \<in> set temp" and "3 \<le> length items"
  shows "map_of (emit_groups d temp seqs) (seq_key d p e) = Some (make_item d p e (sort_key fst items))"
  using assms
proof (induction temp arbitrary: seqs)
  case Nil
  then show ?case by simp
next
  case (Cons g rest)
  obtain p0 e0 items0 where g: "g = ((p0, e0), items0)" by (cases g) auto
  show ?case
  proof (cases "((p, e), items) = g")
    case True
    then have eq: "p0 = p" "e0 = e" "items0 = items" using g by simp_all
    have "seq_key d p' e' \<noteq> seq_key d p e"
      if "((p', e'), items') \<in> set rest" for p' e' items'
    proof
      assume k: "seq_key d p' e' = seq_key d p e"
      from Cons.prems(2)[of p' e' items' p e items] that Cons.prems(3) k
      have "p' = p \<and> e' = e" by simp
      with that have "(p, e) \<in> fst ` set rest" by force
      with Cons.prems(1) g eq show False by simp
    qed
    then have "map_of (emit_groups d rest seqs') (seq_key d p e) = map_of seqs' (seq_key d p e)" for seqs'
      by (intro emit_groups_skip) auto
    then show ?thesis unfolding g eq emit_groups_Cons
      using Cons.prems(4) by (simp add: dict_set_map_of)
  next
    case False
    with Cons.prems(3) have m: "((p, e), items) \<in> set rest" by simp
    from Cons.prems(1) have d: "distinct (map fst rest)" by simp
    have inj: "q = q' \<and> f = f'"
      if "((q, f), its) \<in> set rest" "((q', f'), its') \<in> set rest" "seq_key d q f = seq_key d q' f'"
      for q f its q' f' its'
      by (rule Cons.prems(2)[of q f its q' f' its']) (use that in simp_all)
    have "map_of (emit_groups d rest seqs') (seq_key d p e)
            = Some (make_item d p e (sort_key fst items))" for seqs'
      by (rule Cons.IH[OF d inj m Cons.prems(4)])
    then show ?thesis unfolding g emit_groups_Cons .
  qed
qed


lemma entries_of_member:
  "v \<in> set (entries_of k cs) \<Longrightarrow> \<exists>f\<in>set cs. classify f = Some (k, v)"
  by (auto simp: entries_of_def)

lemma length_group_items: "length (group_items p e ns) = length (group_files p e ns)"
  by (simp add: group_items_def group_files_def entries_of_def)

lemma group_items_member:
  assumes "(ix, fn, w) \<in> set (group_items p e ns)"
  shows "fn \<in> set ns \<and> is_candidate fn \<and> classify fn = Some ((p, e), (ix, fn, w))"
proof -
  from entries_of_member[OF assms[unfolded group_items_def]]
  obtain f where f: "f \<in> set ns" "is_candidate f" "classify f = Some ((p, e), (ix, fn, w))"
    by auto
  from classify_Some[OF f(3)] have "fn = f" by simp
  with f show ?thesis by simp
qed

lemma group_prefix_ext:
  assumes "group_items p e ns \<noteq> []"
  shows "e \<in> set EXT_ALTS \<and> (\<exists>f\<in>set ns. set p \<subseteq> set f)"
proof -
  from assms obtain v where "v \<in> set (group_items p e ns)" by (cases "group_items p e ns") auto
  moreover obtain ix fn w where "v = (ix, fn, w)" by (cases v)
  ultimately have m: "fn \<in> set ns" "classify fn = Some ((p, e), (ix, fn, w))"
    using group_items_member by blast+
  from classify_Some[OF m(2)] obtain t where t: "fn = p @ t" "e \<in> set EXT_ALTS" by blast
  then have "set p \<subseteq> set fn" by simp
  with m(1) t(2) show ?thesis by blast
qed

lemma ext_name_inj:
  assumes "e \<in> set EXT_ALTS" and "e' \<in> set EXT_ALTS"
    and "p @ ''[##].'' @ e = p' @ ''[##].'' @ e'"
  shows "p = p' \<and> e = e'"
proof -
  from assms(3) have "rev (p @ ''[##].'' @ e) = rev (p' @ ''[##].'' @ e')" by simp
  then have "rev e @ ''.]##['' @ rev p = rev e' @ ''.]##['' @ rev p'" by simp
  with assms(1,2) show ?thesis by (auto simp: EXT_ALTS_def)
qed

lemma path_join_inj:
  assumes "b \<noteq> []" and "hd b \<noteq> CHR ''/''" and "b' \<noteq> []" and "hd b' \<noteq> CHR ''/''"
    and "path_join d b = path_join d b'"
  shows "b = b'"
  using assms by (auto simp: path_join_def split: if_splits)

lemma seq_key_inj:
  assumes "CHR ''/'' \<notin> set p" and "CHR ''/'' \<notin> set p'"
    and "e \<in> set EXT_ALTS" and "e' \<in> set EXT_ALTS"
    and "seq_key d p e = seq_key d p' e'"
  shows "p = p' \<and> e = e'"
proof -
  have h: "q @ ''[##].'' @ f \<noteq> [] \<and> hd (q @ ''[##].'' @ f) \<noteq> CHR ''/''" if "CHR ''/'' \<notin> set q" for q f
    using that by (cases q) auto
  from path_join_inj[of "p @ ''[##].'' @ e" "p' @ ''[##].'' @ e'" d] h[OF assms(1)] h[OF assms(2)] assms(5)
  have "p @ ''[##].'' @ e = p' @ ''[##].'' @ e'" by (simp add: seq_key_def)
  with assms(3,4) show ?thesis by (rule ext_name_inj)
qed

lemma scan_dir_groups:
  "((p, e), items) \<in> set (collect (filter is_candidate ns) []) \<longleftrightarrow>
     (group_items p e ns \<noteq> [] \<and> items = group_items p e ns)"
  by (simp add: collect_groups group_items_def)

lemma scan_dir_origin:
  assumes "(kk, s) \<in> set (scan_dir d ns seqs)"
  shows "(kk, s) \<in> set seqs \<or>
     (\<exists>p e. 3 \<le> length (group_items p e ns) \<and> kk = seq_key d p e \<and>
        s = make_item d p e (sort_key fst (group_items p e ns)))"
  using emit_groups_origin[OF assms[unfolded scan_dir_def]]
  by (auto simp: scan_dir_groups)

lemma scan_dir_keys:
  "fst ` set (scan_dir d ns seqs) =
     fst ` set seqs \<union> {seq_key d p e | p e. 3 \<le> length (group_items p e ns)}"
proof -
  have "(\<exists>items. ((p, e), items) \<in> set (collect (filter is_candidate ns) []) \<and> 3 \<le> length items)
          \<longleftrightarrow> 3 \<le> length (group_items p e ns)" for p e
    by (cases "group_items p e ns") (simp_all add: scan_dir_groups)
  then have "{seq_key d p e | p e items. ((p, e), items) \<in> set (collect (filter is_candidate ns) []) \<and>
            3 \<le> length items} = {seq_key d p e | p e. 3 \<le> length (group_items p e ns)}"
    by blast
  then show ?thesis by (simp add: scan_dir_def emit_groups_keys)
qed

lemma scan_dir_distinct:
  "distinct (map fst seqs) \<Longrightarrow> distinct (map fst (scan_dir d ns seqs))"
  by (simp add: scan_dir_def emit_groups_distinct)

lemma scan_dir_value:
  assumes "\<forall>f\<in>set ns. CHR ''/'' \<notin> set f" and "3 \<le> length (group_items p e ns)"
  shows "map_of (scan_dir d ns seqs) (seq_key d p e)
           = Some (make_item d p e (sort_key fst (group_items p e ns)))"
  unfolding scan_dir_def
proof (rule emit_groups_value)
  show "distinct (map fst (collect (filter is_candidate ns) []))"
    by (rule collect_distinct) simp
  show "((p, e), group_items p e ns) \<in> set (collect (filter is_candidate ns) [])"
    using assms(2) by (auto simp: scan_dir_groups)
  show "3 \<le> length (group_items p e ns)" by (rule assms(2))
  fix q f its q' f' its'
  assume a: "((q, f), its) \<in> set (collect (filter is_candidate ns) [])"
    "((q', f'), its') \<in> set (collect (filter is_candidate ns) [])"
    "seq_key d q f = seq_key d q' f'"
  from a(1,2) have "group_items q f ns \<noteq> []" "group_items q' f' ns \<noteq> []"
    by (simp_all add: scan_dir_groups)
  from group_prefix_ext[OF this(1)] group_prefix_ext[OF this(2)] assms(1)
  have "CHR ''/'' \<notin> set q" "CHR ''/'' \<notin> set q'" "f \<in> set EXT_ALTS" "f' \<in> set EXT_ALTS"
    by auto
  from seq_key_inj[OF this a(3)] show "q = q' \<and> f = f'" .
qed

lemma scan_walk_origin:
  "(kk, s) \<in> set (scan_walk walk seqs) \<Longrightarrow>
     (kk, s) \<in> set seqs \<or>
     (\<exists>d ns p e. (d, ns) \<in> set walk \<and> 3 \<le> length (group_items p e ns) \<and> kk = seq_key d p e \<and>
        s = make_item d p e (sort_key fst (group_items p e ns)))"
proof (induction walk arbitrary: seqs)
  case Nil
  then show ?case by simp
next
  case (Cons a walk)
  obtain d ns where a: "a = (d, ns)" by (cases a)
  from Cons.prems a have "(kk, s) \<in> set (scan_walk walk (scan_dir d ns seqs))" by simp
  from Cons.IH[OF this] show ?case
  proof
    assume "(kk, s) \<in> set (scan_dir d ns seqs)"
    from scan_dir_origin[OF this] a show ?thesis by auto
  next
    assume "\<exists>d ns p e. (d, ns) \<in> set walk \<and> 3 \<le> length (group_items p e ns) \<and> kk = seq_key d p e \<and>
        s = make_item d p e (sort_key fst (group_items p e ns))"
    then show ?thesis by auto
  qed
qed

lemma scan_walk_keys:
  "fst ` set seqs \<subseteq> fst ` set (scan_walk walk seqs) \<and>
   ((d, ns) \<in> set walk \<longrightarrow> 3 \<le> length (group_items p e ns) \<longrightarrow>
      seq_key d p e \<in> fst ` set (scan_walk walk seqs))"
proof (induction walk arbitrary: seqs)
  case Nil
  show ?case by simp
next
  case (Cons a walk)
  obtain d' ns' where a: "a = (d', ns')" by (cases a)
  note ih = Cons.IH[of "scan_dir d' ns' seqs"]
  have k: "fst ` set (scan_dir d' ns' seqs) =
     fst ` set seqs \<union> {seq_key d' p e | p e. 3 \<le> length (group_items p e ns')}"
    by (rule scan_dir_keys)
  from ih k have 1: "fst ` set seqs \<subseteq> fst ` set (scan_walk (a # walk) seqs)"
    unfolding a by auto
  have 2: "seq_key d p e \<in> fst ` set (scan_walk (a # walk) seqs)"
    if "(d, ns) \<in> set (a # walk)" "3 \<le> length (group_items p e ns)"
  proof (cases "(d, ns) = a")
    case True
    with that(2) a k have "seq_key d p e \<in> fst ` set (scan_dir d' ns' seqs)" by auto
    with ih show ?thesis unfolding a by auto
  next
    case False
    with that ih show ?thesis unfolding a by auto
  qed
  from 1 2 show ?case by blast
qed

lemma set_find_sequences: "set (find_sequences walk) = snd ` set (scan_walk walk [])"
  by (simp add: find_sequences_def)

lemma find_sequences_origin:
  assumes "s \<in> set (find_sequences walk)"
  shows "\<exists>d ns p e. (d, ns) \<in> set walk \<and> 3 \<le> length (group_items p e ns) \<and>
           s = make_item d p e (sort_key fst (group_items p e ns))"
proof -
  from assms obtain kk where "(kk, s) \<in> set (scan_walk walk [])"
    by (auto simp: set_find_sequences)
  from scan_walk_origin[OF this] show ?thesis by auto
qed


lemma make_item_fields:
  "key (make_item d p e items) = seq_key d p e" "folder (make_item d p e items) = d"
  "prefix (make_item d p e items) = p" "ext (make_item d p e items) = e"
  "frames (make_item d p e items) = map (\<lambda>(ix, fn, w). path_join d fn) items"
  by (simp_all add: make_item_def)

lemma scenario:
  "find_sequences [(''/root'',
      [''a_001.png'', ''a_002.png'', ''a_003.png'', ''a_004.png'', ''a_005.png'', ''a_006.png'',
       ''a_007.png'', ''a_008.png'', ''a_009.png'', ''a_010.png'', ''b_01.jpg'', ''b_02.jpg''])]
   = [\<lparr> key = ''/root/a[##].png'', folder = ''/root'', prefix = ''a'', ext = ''png'',
         frames = [''/root/a_001.png'', ''/root/a_002.png'', ''/root/a_003.png'', ''/root/a_004.png'',
                   ''/root/a_005.png'', ''/root/a_006.png'', ''/root/a_007.png'', ''/root/a_008.png'',
                   ''/root/a_009.png'', ''/root/a_010.png''],
         digits = 3 \<rparr>]"
  by code_simp

text \<open>
  Claim C3. Whatever the walk yields, every sequence found has three frames or more, and
  as many as the group of its prefix and extension has files in its folder; a group of
  three files or more, in any directory of the walk, puts a sequence under its key. For
  one directory whose file names hold no \<open>/\<close>, a sequence with the prefix and extension
  of a group is found exactly when the group has three files or more. In the scenario of
  ten \<open>a_\<close> frames and two \<open>b_\<close> files the one sequence found is that of the ten frames.
\<close>

theorem sequence_iff_three_frames:
  "(\<forall>s\<in>set (find_sequences walk).
      3 \<le> length (frames s) \<and>
      (\<exists>names. (folder s, names) \<in> set walk \<and>
         length (frames s) = length (group_files (prefix s) (ext s) names))) \<and>
   ((d, ns) \<in> set walk \<and> 3 \<le> length (group_files p e ns) \<longrightarrow>
      (\<exists>s\<in>set (find_sequences walk). key s = seq_key d p e)) \<and>
   ((\<forall>f\<in>set ns. CHR ''/'' \<notin> set f) \<longrightarrow>
      ((\<exists>s\<in>set (find_sequences [(d, ns)]). prefix s = p \<and> ext s = e)
         \<longleftrightarrow> 3 \<le> length (group_files p e ns))) \<and>
   find_sequences [(''/root'',
      [''a_001.png'', ''a_002.png'', ''a_003.png'', ''a_004.png'', ''a_005.png'', ''a_006.png'',
       ''a_007.png'', ''a_008.png'', ''a_009.png'', ''a_010.png'', ''b_01.jpg'', ''b_02.jpg''])]
   = [\<lparr> key = ''/root/a[##].png'', folder = ''/root'', prefix = ''a'', ext = ''png'',
         frames = [''/root/a_001.png'', ''/root/a_002.png'', ''/root/a_003.png'', ''/root/a_004.png'',
                   ''/root/a_005.png'', ''/root/a_006.png'', ''/root/a_007.png'', ''/root/a_008.png'',
                   ''/root/a_009.png'', ''/root/a_010.png''],
         digits = 3 \<rparr>]"
proof -
  have 1: "3 \<le> length (frames s) \<and>
      (\<exists>names. (folder s, names) \<in> set walk' \<and>
         length (frames s) = length (group_files (prefix s) (ext s) names))"
    if "s \<in> set (find_sequences walk')" for s walk'
  proof -
    from find_sequences_origin[OF that] obtain d' ns' p' e' where
      o: "(d', ns') \<in> set walk'" "3 \<le> length (group_items p' e' ns')"
         "s = make_item d' p' e' (sort_key fst (group_items p' e' ns'))" by blast
    from o(3) have "length (frames s) = length (group_files p' e' ns')"
      "folder s = d'" "prefix s = p'" "ext s = e'"
      by (simp_all add: make_item_fields length_group_items)
    with o(1,2) show ?thesis by (auto simp: length_group_items)
  qed
  have 2: "\<exists>s\<in>set (find_sequences walk). key s = seq_key d p e"
    if "(d, ns) \<in> set walk" "3 \<le> length (group_files p e ns)"
  proof -
    from that scan_walk_keys[of "[]" walk d ns p e]
    have "seq_key d p e \<in> fst ` set (scan_walk walk [])" by (simp add: length_group_items)
    then obtain s where m: "(seq_key d p e, s) \<in> set (scan_walk walk [])" by auto
    from scan_walk_origin[OF m] have "key s = seq_key d p e" by (auto simp: make_item_fields)
    with m show ?thesis by (force simp: set_find_sequences)
  qed
  have 3: "(\<exists>s\<in>set (find_sequences [(d, ns)]). prefix s = p \<and> ext s = e)
         \<longleftrightarrow> 3 \<le> length (group_files p e ns)"
    if nosl: "\<forall>f\<in>set ns. CHR ''/'' \<notin> set f"
  proof
    assume "\<exists>s\<in>set (find_sequences [(d, ns)]). prefix s = p \<and> ext s = e"
    then obtain s where s: "s \<in> set (find_sequences [(d, ns)])" "prefix s = p" "ext s = e" by blast
    from 1[OF s(1)] s(2,3) show "3 \<le> length (group_files p e ns)" by auto
  next
    assume "3 \<le> length (group_files p e ns)"
    then have g: "3 \<le> length (group_items p e ns)" by (simp add: length_group_items)
    define s where "s = make_item d p e (sort_key fst (group_items p e ns))"
    from scan_dir_value[OF nosl g, of d "[]"]
    have "map_of (scan_walk [(d, ns)] []) (seq_key d p e) = Some s" by (simp add: s_def)
    then have "(seq_key d p e, s) \<in> set (scan_walk [(d, ns)] [])" by (rule map_of_SomeD)
    then have "s \<in> set (find_sequences [(d, ns)])" by (force simp: set_find_sequences)
    moreover have "prefix s = p \<and> ext s = e" by (simp add: s_def make_item_fields)
    ultimately show "\<exists>s\<in>set (find_sequences [(d, ns)]). prefix s = p \<and> ext s = e" by blast
  qed
  from 1 2 3 scenario show ?thesis by blast
qed

theorem sequence_iff_three_frames_witness:
  "list_all (\<lambda>f. CHR ''/'' \<notin> set f) [''a_001.png'', ''a_002.png'', ''a_003.png'', ''x_001.jpg'', ''x_002.jpg''] \<and>
   length (group_files ''a'' ''png'' [''a_001.png'', ''a_002.png'', ''a_003.png'', ''x_001.jpg'', ''x_002.jpg'']) = 3 \<and>
   list_ex (\<lambda>s. prefix s = ''a'' \<and> ext s = ''png'')
     (find_sequences [(''/r'', [''a_001.png'', ''a_002.png'', ''a_003.png'', ''x_001.jpg'', ''x_002.jpg''])]) \<and>
   length (group_files ''x'' ''jpg'' [''a_001.png'', ''a_002.png'', ''a_003.png'', ''x_001.jpg'', ''x_002.jpg'']) = 2 \<and>
   \<not> list_ex (\<lambda>s. prefix s = ''x'' \<and> ext s = ''jpg'')
     (find_sequences [(''/r'', [''a_001.png'', ''a_002.png'', ''a_003.png'', ''x_001.jpg'', ''x_002.jpg''])])"
proof -
  define ns where "ns = [''a_001.png'', ''a_002.png'', ''a_003.png'', ''x_001.jpg'', ''x_002.jpg'']"
  have h1: "\<forall>f\<in>set ns. CHR ''/'' \<notin> set f" by (simp add: ns_def)
  have h2: "length (group_files ''a'' ''png'' ns) = 3" unfolding ns_def by code_simp
  have h3: "length (group_files ''x'' ''jpg'' ns) = 2" unfolding ns_def by code_simp
  from sequence_iff_three_frames [of "[(''/r'', ns)]" "''/r''" ns "''a''" "''png''"] h1 h2
  have a: "\<exists>s\<in>set (find_sequences [(''/r'', ns)]). prefix s = ''a'' \<and> ext s = ''png''" by simp
  from sequence_iff_three_frames [of "[(''/r'', ns)]" "''/r''" ns "''x''" "''jpg''"] h1 h3
  have b: "\<not> (\<exists>s\<in>set (find_sequences [(''/r'', ns)]). prefix s = ''x'' \<and> ext s = ''jpg'')" by simp
  from h1 h2 h3 a b show ?thesis unfolding ns_def list_all_iff list_ex_iff by blast
qed

lemma numeric_not_lexical:
  "map frames (find_sequences [(''/r'', [''f_1000.png'', ''f_999.png'', ''f_998.png''])])
     = [[''/r/f_998.png'', ''/r/f_999.png'', ''/r/f_1000.png'']] \<and>
   sort [''f_1000.png'', ''f_999.png'', ''f_998.png''] = [''f_1000.png'', ''f_998.png'', ''f_999.png'']"
  by code_simp

text \<open>
  Claim C4, as the code has it. The frames of every sequence found are the files of its
  group in its folder, joined to the folder, in the order of a stable sort by the integer
  parsed from each name: ascending, and not strictly so, since two names of a group can
  carry the same number. The order is never the lexical one: \<open>f_998.png\<close>,
  \<open>f_999.png\<close>, \<open>f_1000.png\<close> are ordered 998, 999, 1000, where the lexical order
  puts \<open>f_1000.png\<close> first. (An index needs three to six digits, so names such as
  \<open>frame_9.png\<close> are not frames at all.)
\<close>

theorem frames_ascending_by_parsed_index:
  assumes "s \<in> set (find_sequences walk)"
  shows "(\<exists>names items.
            (folder s, names) \<in> set walk \<and>
            items = sort_key fst (group_items (prefix s) (ext s) names) \<and>
            frames s = map (\<lambda>(ix, fn, w). path_join (folder s) fn) items \<and>
            3 \<le> length items \<and> sorted (map fst items) \<and>
            (\<forall>(ix, fn, w)\<in>set items.
               fn \<in> set names \<and> is_candidate fn \<and>
               classify fn = Some ((prefix s, ext s), (ix, fn, w)))) \<and>
         map frames (find_sequences [(''/r'', [''f_1000.png'', ''f_999.png'', ''f_998.png''])])
           = [[''/r/f_998.png'', ''/r/f_999.png'', ''/r/f_1000.png'']] \<and>
         sort [''f_1000.png'', ''f_999.png'', ''f_998.png'']
           = [''f_1000.png'', ''f_998.png'', ''f_999.png'']"
proof -
  from find_sequences_origin[OF assms] obtain d ns p e where
    o: "(d, ns) \<in> set walk" "3 \<le> length (group_items p e ns)"
       "s = make_item d p e (sort_key fst (group_items p e ns))" by blast
  define items where "items = sort_key fst (group_items p e ns)"
  from o(3) have f: "folder s = d" "prefix s = p" "ext s = e"
    "frames s = map (\<lambda>(ix, fn, w). path_join d fn) items"
    by (simp_all add: make_item_fields items_def)
  have m: "\<forall>(ix, fn, w)\<in>set items. fn \<in> set ns \<and> is_candidate fn \<and>
             classify fn = Some ((p, e), (ix, fn, w))"
    using group_items_member[of _ _ _ p e ns] by (auto simp: items_def)
  have "(folder s, ns) \<in> set walk \<and>
        items = sort_key fst (group_items (prefix s) (ext s) ns) \<and>
        frames s = map (\<lambda>(ix, fn, w). path_join (folder s) fn) items \<and>
        3 \<le> length items \<and> sorted (map fst items) \<and>
        (\<forall>(ix, fn, w)\<in>set items.
           fn \<in> set ns \<and> is_candidate fn \<and>
           classify fn = Some ((prefix s, ext s), (ix, fn, w)))"
    using o(1,2) f m by (simp add: items_def)
  then have "\<exists>names items.
            (folder s, names) \<in> set walk \<and>
            items = sort_key fst (group_items (prefix s) (ext s) names) \<and>
            frames s = map (\<lambda>(ix, fn, w). path_join (folder s) fn) items \<and>
            3 \<le> length items \<and> sorted (map fst items) \<and>
            (\<forall>(ix, fn, w)\<in>set items.
               fn \<in> set names \<and> is_candidate fn \<and>
               classify fn = Some ((prefix s, ext s), (ix, fn, w)))" by blast
  with numeric_not_lexical show ?thesis by simp
qed

theorem frames_ascending_by_parsed_index_witness:
  "\<lparr> key = ''/r/f[##].png'', folder = ''/r'', prefix = ''f'', ext = ''png'',
      frames = [''/r/f_998.png'', ''/r/f_999.png'', ''/r/f_1000.png''], digits = 3 \<rparr>
     \<in> set (find_sequences [(''/r'', [''f_1000.png'', ''f_999.png'', ''f_998.png''])]) \<and>
   (\<exists>items.
      [''/r/f_998.png'', ''/r/f_999.png'', ''/r/f_1000.png'']
        = map (\<lambda>(ix, fn, w). path_join ''/r'' fn) items \<and>
      3 \<le> length items \<and> sorted (map fst items) \<and>
      list_all (\<lambda>(ix, fn, w). classify fn = Some ((''f'', ''png''), (ix, fn, w))) items)"
proof -
  define s where "s = \<lparr> key = ''/r/f[##].png'', folder = ''/r'', prefix = ''f'', ext = ''png'',
      frames = [''/r/f_998.png'', ''/r/f_999.png'', ''/r/f_1000.png''], digits = 3 \<rparr>"
  have h: "s \<in> set (find_sequences [(''/r'', [''f_1000.png'', ''f_999.png'', ''f_998.png''])])"
    unfolding s_def by code_simp
  from frames_ascending_by_parsed_index [OF h]
  obtain names items where
    "(folder s, names) \<in> set [(''/r'', [''f_1000.png'', ''f_999.png'', ''f_998.png''])]"
    "frames s = map (\<lambda>(ix, fn, w). path_join (folder s) fn) items"
    "3 \<le> length items" "sorted (map fst items)"
    "\<forall>(ix, fn, w)\<in>set items. classify fn = Some ((prefix s, ext s), (ix, fn, w))"
    by blast
  then have "\<exists>items.
      [''/r/f_998.png'', ''/r/f_999.png'', ''/r/f_1000.png'']
        = map (\<lambda>(ix, fn, w). path_join ''/r'' fn) items \<and>
      3 \<le> length items \<and> sorted (map fst items) \<and>
      list_all (\<lambda>(ix, fn, w). classify fn = Some ((''f'', ''png''), (ix, fn, w))) items"
    unfolding s_def list_all_iff by auto
  with h show ?thesis unfolding s_def by simp
qed

text \<open>The claim as written fails twice: its own example is no sequence, the three names
  having indices of one and two digits; and two frames of a sequence can carry the same
  index, here 1, 1, 2.\<close>

theorem strict_order_counterexample:
  "find_sequences [(''/r'', [''frame_9.png'', ''frame_10.png'', ''frame_11.png''])] = [] \<and>
   map frames (find_sequences [(''/r'', [''a_001.png'', ''a_0001.png'', ''a_002.png''])])
     = [[''/r/a_001.png'', ''/r/a_0001.png'', ''/r/a_002.png'']] \<and>
   map (map_option (fst \<circ> snd) \<circ> classify) [''a_001.png'', ''a_0001.png'', ''a_002.png'']
     = [Some 1, Some 1, Some 2] \<and>
   \<not> sorted_wrt (<) [1, 1, 2 :: int]"
  by code_simp

section \<open>Properties of the resizing\<close>

lemma contain_size_11_120: "contain_size (11, 11) (120, 120) = (119, 119)"
  by code_simp

lemma spec_contain_size_11_120: "spec_contain_size (11, 11) (120, 120) = (120, 120)"
  by code_simp

lemma contain_size_agrees:
  "contain_size (400, 200) (200, 200) = spec_contain_size (400, 200) (200, 200)"
  "contain_size (640, 480) (200, 200) = spec_contain_size (640, 480) (200, 200)"
  by code_simp+

text \<open>
  Claim C9 at an image of 11 by 11 pixels and the box of 120 by 120. Each colour band is
  multiplied by the alpha band and then resampled, the alpha band is resampled as it is,
  all four to one size. That size is 119 by 119: \<open>120 / 11\<close> is rounded down to the
  nearest float, and 11 times it is the float just below 120, which \<open>int\<close> truncates to
  119. The size the claim gives, \<open>floor(w * s)\<close> with \<open>s = min(bw / w, bh / h)\<close>, is 120 by
  120.
\<close>

theorem resize_11_into_120_one_pixel_short:
  "resize_rgba_contain_premultiplied multiply resize
      \<lparr> img_size = (11, 11), band_r = r, band_g = g, band_b = b, band_a = a \<rparr> (120, 120)
     = \<lparr> img_size = (119, 119),
         band_r = resize (multiply r a) (119, 119),
         band_g = resize (multiply g a) (119, 119),
         band_b = resize (multiply b a) (119, 119),
         band_a = resize a (119, 119) \<rparr> \<and>
   spec_contain_size (11, 11) (120, 120) = (120, 120)"
  by (simp add: resize_rgba_contain_premultiplied_def Let_def contain_size_11_120
        spec_contain_size_11_120)

section \<open>Properties of the cache\<close>

lemma get_hit: "mem c (cache_key c path k) = Some ph \<Longrightarrow> get sha1 c fs' path k = (Some ph, c)"
  by (simp add: get_def)

lemma put_result:
  "put sha1 c fs' path k im = (ph, c', fs'') \<Longrightarrow>
     ph = PhotoImage im \<and> mem c' (cache_key c' path k) = Some ph"
  by (auto simp: put_def cache_key_def Let_def)

lemma run_op_keeps:
  "size_px (fst (run_op sha1 x st)) = size_px (fst st) \<and>
   cache_dir (fst (run_op sha1 x st)) = cache_dir (fst st) \<and>
   (mem (fst st) kk \<noteq> None \<longrightarrow> mem (fst (run_op sha1 x st)) kk \<noteq> None)"
proof (cases st)
  case (Pair c d)
  show ?thesis
  proof (cases x)
    case (Get path k)
    with Pair show ?thesis
      by (simp add: get_def Let_def split: option.splits cache_file.splits)
  next
    case (Put path k im)
    with Pair show ?thesis by (simp add: put_def Let_def)
  qed
qed

lemma run_ops_keeps:
  "size_px (fst (run_ops sha1 ops st)) = size_px (fst st) \<and>
   cache_dir (fst (run_ops sha1 ops st)) = cache_dir (fst st) \<and>
   (mem (fst st) kk \<noteq> None \<longrightarrow> mem (fst (run_ops sha1 ops st)) kk \<noteq> None)"
proof (induction ops arbitrary: st)
  case Nil
  show ?case by simp
next
  case (Cons x ops)
  from Cons.IH[of "run_op sha1 x st"] run_op_keeps[of sha1 x st kk]
  show ?case by simp
qed

text \<open>
  Claim C5. After \<open>put(path, k, image)\<close>, \<open>get(path, k)\<close> on the same cache returns the
  handle that \<open>put\<close> returned, from the memory tier: the result is the same for every
  state of the file system, and the cache is left as it was. The same key still hits
  after any further calls of \<open>get\<close> and \<open>put\<close> on this cache. \<open>get\<close> has no access to
  the codec, and a tile that asks the cache for this frame is given the handle, so no job
  is made for it.
\<close>

theorem get_after_put_hits_memory:
  assumes "put sha1 c d path k im = (ph, c1, d1)"
  shows "get sha1 c1 d' path k = (Some ph, c1) \<and>
         (\<exists>ph'. get sha1 (fst (run_ops sha1 ops (c1, d1))) d'' path k
                  = (Some ph', fst (run_ops sha1 ops (c1, d1)))) \<and>
         (thumb_cache w = Some c1 \<longrightarrow> cache_get sha1 path k w = (Some ph, w))"
proof -
  from put_result[OF assms] have m: "mem c1 (cache_key c1 path k) = Some ph" by simp
  then have g: "get sha1 c1 d' path k = (Some ph, c1)" by (rule get_hit)
  define c2 where "c2 = fst (run_ops sha1 ops (c1, d1))"
  from run_ops_keeps[of sha1 ops "(c1, d1)" "cache_key c1 path k"] m
  have "size_px c2 = size_px c1" "mem c2 (cache_key c1 path k) \<noteq> None" by (simp_all add: c2_def)
  then obtain ph' where "mem c2 (cache_key c2 path k) = Some ph'"
    by (auto simp: cache_key_def)
  then have "get sha1 c2 d'' path k = (Some ph', c2)" by (rule get_hit)
  then have e: "\<exists>ph'. get sha1 c2 d'' path k = (Some ph', c2)" ..
  have "thumb_cache w = Some c1 \<longrightarrow> cache_get sha1 path k w = (Some ph, w)"
    using get_hit[OF m, of sha1 "fs w"] by (simp add: cache_get_def)
  with g e show ?thesis unfolding c2_def by simp
qed

theorem get_after_put_hits_memory_witness:
  "put (\<lambda>b. b) (ThumbCache_init ''/r'' 200) \<lparr>files = Map.empty, writable = (\<lambda>p. False)\<rparr> ''/r/a_001.png'' 0 (5 :: nat)
     = (PhotoImage 5,
        \<lparr>mem = [(''/r/a_001.png'', 200, 0) \<mapsto> PhotoImage 5], root_dir = ''/r'', size_px = 200,
          cache_dir = ''/r/.seqwall_cache''\<rparr>,
        \<lparr>files = Map.empty, writable = (\<lambda>p. False)\<rparr>) \<and>
   get (\<lambda>b. b)
       \<lparr>mem = [(''/r/a_001.png'', 200, 0) \<mapsto> PhotoImage 5], root_dir = ''/r'', size_px = 200,
         cache_dir = ''/r/.seqwall_cache''\<rparr>
       \<lparr>files = Map.empty, writable = (\<lambda>p. False)\<rparr> ''/r/a_001.png'' 0
     = (Some (PhotoImage (5 :: nat)),
        \<lparr>mem = [(''/r/a_001.png'', 200, 0) \<mapsto> PhotoImage 5], root_dir = ''/r'', size_px = 200,
          cache_dir = ''/r/.seqwall_cache''\<rparr>)"
proof -
  have h: "put (\<lambda>b. b) (ThumbCache_init ''/r'' 200) \<lparr>files = Map.empty, writable = (\<lambda>p. False)\<rparr>
             ''/r/a_001.png'' 0 (5 :: nat)
     = (PhotoImage 5,
        \<lparr>mem = [(''/r/a_001.png'', 200, 0) \<mapsto> PhotoImage 5], root_dir = ''/r'', size_px = 200,
          cache_dir = ''/r/.seqwall_cache''\<rparr>,
        \<lparr>files = Map.empty, writable = (\<lambda>p. False)\<rparr>)"
    by (simp add: put_def ThumbCache_init_def cache_key_def Let_def path_join_def)
  from get_after_put_hits_memory [OF h] h show ?thesis by blast
qed

lemma disk_path_run_ops:
  "disk_path sha1 (fst (run_ops sha1 ops (ThumbCache_init rootdir sz, d))) path k
     = path_join (path_join rootdir ''.seqwall_cache'')
         (sha1 (utf8 (path @ ''|'' @ py_str sz @ ''|'' @ py_str k)) @ ''.png'')"
  using run_ops_keeps[of sha1 ops "(ThumbCache_init rootdir sz, d)"]
  by (simp add: disk_path_def ThumbCache_init_def)

text \<open>
  Claim C6. The file name of a key in the disk tier is the cache directory of the root
  joined with the hexadecimal SHA-1 digest of the UTF-8 bytes of \<open>path|size|frame_idx\<close>
  and \<open>.png\<close>. It depends on the root, the size and the key alone: two caches made for
  the same root and size give the same name, whatever calls each has served and whatever
  its file system holds.
\<close>

theorem disk_path_deterministic:
  "disk_path sha1 (fst (run_ops sha1 ops1 (ThumbCache_init rootdir sz, d1))) path k
     = disk_path sha1 (fst (run_ops sha1 ops2 (ThumbCache_init rootdir sz, d2))) path k \<and>
   disk_path sha1 (fst (run_ops sha1 ops1 (ThumbCache_init rootdir sz, d1))) path k
     = path_join (path_join rootdir ''.seqwall_cache'')
         (sha1 (utf8 (path @ ''|'' @ py_str sz @ ''|'' @ py_str k)) @ ''.png'')"
  by (simp only: disk_path_run_ops)

section \<open>Properties of the tick\<close>

lemma acts_on_refl: "acts_on i w w"
  by (simp add: acts_on_def)

lemma acts_on_trans:
  assumes "acts_on i w w1" and "acts_on i w1 w2"
  shows "acts_on i w w2"
proof -
  from assms obtain n1 n2 where
    "pool_jobs w1 = pool_jobs w @ n1" "\<forall>x\<in>set n1. fst x = i"
    "pool_jobs w2 = pool_jobs w1 @ n2" "\<forall>x\<in>set n2. fst x = i"
    unfolding acts_on_def by blast
  then have "pool_jobs w2 = pool_jobs w @ (n1 @ n2) \<and> (\<forall>x\<in>set (n1 @ n2). fst x = i)"
    by auto
  then have "\<exists>new. pool_jobs w2 = pool_jobs w @ new \<and> (\<forall>x\<in>set new. fst x = i)" ..
  with assms show ?thesis unfolding acts_on_def by simp
qed

lemma acts_on_upd_tile:
  assumes "i < length (tiles w)" and "fixed_part (f (tiles w ! i)) = fixed_part (tiles w ! i)"
  shows "acts_on i w (upd_tile i f w)"
  using assms by (simp add: acts_on_def upd_tile_def)

lemma idx_upd_tile:
  "i < length (tiles w) \<Longrightarrow> idx (tiles (upd_tile i f w) ! i) = idx (f (tiles w ! i))"
  by (simp add: upd_tile_def)

lemma acts_on_draw_photo: "i < length (tiles w) \<Longrightarrow> acts_on i w (draw_photo i ph w)"
  unfolding draw_photo_def by (rule acts_on_upd_tile) (simp_all add: fixed_part_def)

lemma acts_on_draw_text: "i < length (tiles w) \<Longrightarrow> acts_on i w (draw_text i w)"
  unfolding draw_text_def by (rule acts_on_upd_tile) (simp_all add: fixed_part_def)

lemma idx_draw_photo: "i < length (tiles w) \<Longrightarrow> idx (tiles (draw_photo i ph w) ! i) = idx (tiles w ! i)"
  by (simp add: draw_photo_def upd_tile_def)

lemma idx_draw_text: "i < length (tiles w) \<Longrightarrow> idx (tiles (draw_text i w) ! i) = idx (tiles w ! i)"
  by (simp add: draw_text_def upd_tile_def)

lemma acts_on_length: "acts_on i w w' \<Longrightarrow> length (tiles w') = length (tiles w)"
  by (simp add: acts_on_def)

lemma acts_on_cache_fs:
  "acts_on i (w\<lparr>thumb_cache := c, fs := d\<rparr>) w' \<Longrightarrow> acts_on i w w'"
  by (simp add: acts_on_def)

lemma acts_on_cache:
  "acts_on i (w\<lparr>thumb_cache := c\<rparr>) w' \<Longrightarrow> acts_on i w w'"
  by (simp add: acts_on_def)


lemma load_and_cache_acts:
  "i < length (tiles w) \<Longrightarrow>
     acts_on i w (load_and_cache codec sha1 i path k w) \<and>
     idx (tiles (load_and_cache codec sha1 i path k w) ! i) = idx (tiles w ! i)"
  by (simp add: load_and_cache_def acts_on_def upd_tile_def draw_photo_def draw_text_def
        fixed_part_def split: option.splits prod.splits)

lemma dispatch_acts:
  "i < length (tiles w) \<Longrightarrow>
     acts_on i w (dispatch codec sha1 i path k w) \<and>
     idx (tiles (dispatch codec sha1 i path k w) ! i) = idx (tiles w ! i)"
  using load_and_cache_acts[of i w codec sha1 path k]
  by (simp add: dispatch_def acts_on_def)

lemma cache_get_same:
  "cache_get sha1 path k w = (r, w') \<Longrightarrow>
     tiles w' = tiles w \<and> pool w' = pool w \<and> pool_jobs w' = pool_jobs w"
  by (auto simp: cache_get_def split: option.splits prod.splits)

lemma acts_on_same:
  "tiles w1 = tiles w \<Longrightarrow> pool w1 = pool w \<Longrightarrow> pool_jobs w1 = pool_jobs w \<Longrightarrow>
     acts_on i w1 w' \<Longrightarrow> acts_on i w w'"
  by (simp add: acts_on_def)

lemma ensure_first_frame_loaded_acts:
  assumes "i < length (tiles w)"
  shows "acts_on i w (ensure_first_frame_loaded codec sha1 i w) \<and>
         idx (tiles (ensure_first_frame_loaded codec sha1 i w) ! i) = idx (tiles w ! i)"
proof (cases "first_loaded (tiles w ! i) \<or> loading_first (tiles w ! i) \<or> frames (seq (tiles w ! i)) = []")
  case True
  then show ?thesis by (simp add: ensure_first_frame_loaded_def acts_on_refl)
next
  case False
  define w1 where "w1 = upd_tile i (\<lambda>t. t\<lparr>loading_first := True\<rparr>) w"
  define path where "path = hd (frames (seq (tiles w ! i)))"
  have a1: "acts_on i w w1" unfolding w1_def
    using assms by (intro acts_on_upd_tile) (simp_all add: fixed_part_def)
  have i1: "idx (tiles w1 ! i) = idx (tiles w ! i)" "i < length (tiles w1)"
    using assms by (simp_all add: w1_def upd_tile_def)
  obtain r w2 where cg: "cache_get sha1 path 0 w1 = (r, w2)" by (cases "cache_get sha1 path 0 w1")
  from cache_get_same[OF cg] have s: "tiles w2 = tiles w1" "pool w2 = pool w1" "pool_jobs w2 = pool_jobs w1"
    by simp_all
  have e: "ensure_first_frame_loaded codec sha1 i w =
         (case r of Some ph \<Rightarrow> upd_tile i (\<lambda>t. t\<lparr>first_loaded := True, loading_first := False\<rparr>) (draw_photo i ph w2)
          | None \<Rightarrow> dispatch codec sha1 i path 0 w2)"
    using False cg[unfolded w1_def path_def] unfolding path_def
    by (simp add: ensure_first_frame_loaded_def Let_def)
  have "acts_on i w2 (ensure_first_frame_loaded codec sha1 i w) \<and>
        idx (tiles (ensure_first_frame_loaded codec sha1 i w) ! i) = idx (tiles w2 ! i)"
  proof (cases r)
    case None
    with e dispatch_acts[of i w2 codec sha1 path 0] i1 s show ?thesis by simp
  next
    case (Some ph)
    with e i1 s show ?thesis
      by (simp add: acts_on_def upd_tile_def draw_photo_def fixed_part_def)
  qed
  then have "acts_on i w1 (ensure_first_frame_loaded codec sha1 i w)"
    and "idx (tiles (ensure_first_frame_loaded codec sha1 i w) ! i) = idx (tiles w ! i)"
    using s i1 acts_on_same[of w2 w1] by simp_all
  with a1 acts_on_trans show ?thesis by blast
qed

lemma step_acts:
  assumes "i < length (tiles w)"
  shows "acts_on i w (step codec sha1 i n w)"
    and "\<not> running (tiles w ! i) \<Longrightarrow> step codec sha1 i n w = w"
    and "running (tiles w ! i) \<Longrightarrow> first_loaded (tiles w ! i) \<Longrightarrow> frames (seq (tiles w ! i)) \<noteq> [] \<Longrightarrow>
           idx (tiles (step codec sha1 i n w) ! i)
             = (idx (tiles w ! i) + n) mod int (length (frames (seq (tiles w ! i))))"
proof -
  show "\<not> running (tiles w ! i) \<Longrightarrow> step codec sha1 i n w = w"
    by (simp add: step_def)
  define t where "t = tiles w ! i"
  define k where "k = (idx t + n) mod int (length (frames (seq t)))"
  define w1 where "w1 = upd_tile i (\<lambda>t. t\<lparr>idx := k\<rparr>) w"
  define path where "path = frames (seq t) ! nat k"
  have a1: "acts_on i w w1" unfolding w1_def
    using assms by (intro acts_on_upd_tile) (simp_all add: fixed_part_def)
  have i1: "idx (tiles w1 ! i) = k" "i < length (tiles w1)"
    using assms by (simp_all add: w1_def upd_tile_def)
  obtain r w2 where cg: "cache_get sha1 path k w1 = (r, w2)" by (cases "cache_get sha1 path k w1")
  from cache_get_same[OF cg] have s: "tiles w2 = tiles w1" "pool w2 = pool w1" "pool_jobs w2 = pool_jobs w1"
    by simp_all
  define w3 where "w3 = (case r of Some ph \<Rightarrow> draw_photo i ph w2 | None \<Rightarrow> dispatch codec sha1 i path k w2)"
  have "acts_on i w2 w3 \<and> idx (tiles w3 ! i) = idx (tiles w2 ! i)"
  proof (cases r)
    case None
    with dispatch_acts[of i w2 codec sha1 path k] i1 s show ?thesis by (simp add: w3_def)
  next
    case (Some ph)
    with acts_on_draw_photo[of i w2 ph] idx_draw_photo[of i w2 ph] i1 s show ?thesis
      by (simp add: w3_def)
  qed
  then have a3: "acts_on i w w3" and i3: "idx (tiles w3 ! i) = k"
    using s i1 acts_on_same[of w2 w1 i w3] acts_on_trans[OF a1] by simp_all
  have e: "running t \<Longrightarrow> first_loaded t \<Longrightarrow> frames (seq t) \<noteq> [] \<Longrightarrow> step codec sha1 i n w = w3"
    using cg[unfolded w1_def path_def k_def t_def] unfolding w3_def path_def k_def t_def
    by (simp add: step_def Let_def)
  show "running (tiles w ! i) \<Longrightarrow> first_loaded (tiles w ! i) \<Longrightarrow> frames (seq (tiles w ! i)) \<noteq> [] \<Longrightarrow>
           idx (tiles (step codec sha1 i n w) ! i)
             = (idx (tiles w ! i) + n) mod int (length (frames (seq (tiles w ! i))))"
    using e i3 by (simp add: t_def k_def)
  show "acts_on i w (step codec sha1 i n w)"
  proof (cases "\<not> running t \<or> frames (seq t) = []")
    case True
    then show ?thesis by (simp add: step_def t_def acts_on_refl)
  next
    case False
    show ?thesis
    proof (cases "first_loaded t")
      case True
      with False e a3 show ?thesis by simp
    next
      case f: False
      with False have "step codec sha1 i n w = ensure_first_frame_loaded codec sha1 i w"
        by (simp add: step_def t_def)
      with ensure_first_frame_loaded_acts[OF assms] show ?thesis by simp
    qed
  qed
qed


lemma fixed_part_visible:
  "fixed_part t' = fixed_part t \<Longrightarrow>
     visible y0 y1 t' = visible y0 y1 t \<and> running t' = running t \<and> seq t' = seq t"
  by (simp add: fixed_part_def visible_def)

lemma tick_tile_acts:
  assumes "k < length (tiles w)"
  shows "acts_on k w (tick_tile codec sha1 y0 y1 n play w k)"
    and "\<not> visible y0 y1 (tiles w ! k) \<Longrightarrow> tick_tile codec sha1 y0 y1 n play w k = w"
    and "\<not> running (tiles w ! k) \<Longrightarrow>
           idx (tiles (tick_tile codec sha1 y0 y1 n play w k) ! k) = idx (tiles w ! k)"
    and "play \<Longrightarrow> visible y0 y1 (tiles w ! k) \<Longrightarrow> running (tiles w ! k) \<Longrightarrow>
         first_loaded (tiles w ! k) \<Longrightarrow> frames (seq (tiles w ! k)) \<noteq> [] \<Longrightarrow>
           idx (tiles (tick_tile codec sha1 y0 y1 n play w k) ! k)
             = (idx (tiles w ! k) + n) mod int (length (frames (seq (tiles w ! k))))"
proof -
  define w1 where "w1 = ensure_first_frame_loaded codec sha1 k w"
  from ensure_first_frame_loaded_acts[OF assms, of codec sha1]
  have a1: "acts_on k w w1" and i1: "idx (tiles w1 ! k) = idx (tiles w ! k)"
    by (simp_all add: w1_def)
  from a1 have l1: "k < length (tiles w1)" using assms by (simp add: acts_on_def)
  from a1 have f1: "fixed_part (tiles w1 ! k) = fixed_part (tiles w ! k)" by (simp add: acts_on_def)
  have a2: "acts_on k w (step codec sha1 k n w1)"
    using acts_on_trans[OF a1 step_acts(1)[OF l1]] .
  show "acts_on k w (tick_tile codec sha1 y0 y1 n play w k)"
    using a1 a2 by (simp add: tick_tile_def Let_def w1_def acts_on_refl)
  show "\<not> visible y0 y1 (tiles w ! k) \<Longrightarrow> tick_tile codec sha1 y0 y1 n play w k = w"
    by (simp add: tick_tile_def)
  show "idx (tiles (tick_tile codec sha1 y0 y1 n play w k) ! k) = idx (tiles w ! k)"
    if "\<not> running (tiles w ! k)"
  proof -
    from that f1 have "\<not> running (tiles w1 ! k)" using fixed_part_visible by blast
    then have "step codec sha1 k n w1 = w1" by (rule step_acts(2)[OF l1])
    with i1 show ?thesis by (simp add: tick_tile_def Let_def w1_def)
  qed
  show "idx (tiles (tick_tile codec sha1 y0 y1 n play w k) ! k)
             = (idx (tiles w ! k) + n) mod int (length (frames (seq (tiles w ! k))))"
    if "play" "visible y0 y1 (tiles w ! k)" "running (tiles w ! k)"
         "first_loaded (tiles w ! k)" "frames (seq (tiles w ! k)) \<noteq> []"
  proof -
    from that have "w1 = w" by (simp add: w1_def ensure_first_frame_loaded_def)
    with that step_acts(3)[OF assms, of codec sha1 n] show ?thesis
      by (simp add: tick_tile_def Let_def w1_def)
  qed
qed

lemma tick_rel_refl: "tick_rel y0 y1 K w w"
  by (simp add: tick_rel_def)

lemma tick_rel_step:
  assumes "k < length (tiles w)"
  shows "tick_rel y0 y1 {k} w (tick_tile codec sha1 y0 y1 n play w k)"
proof (cases "visible y0 y1 (tiles w ! k)")
  case False
  with tick_tile_acts(2)[OF assms] show ?thesis by (simp add: tick_rel_refl)
next
  case True
  define w' where "w' = tick_tile codec sha1 y0 y1 n play w k"
  from tick_tile_acts(1)[OF assms, of codec sha1 y0 y1 n play]
  have a: "acts_on k w w'" by (simp add: w'_def)
  then obtain new where new: "pool_jobs w' = pool_jobs w @ new" "\<forall>x\<in>set new. fst x = k"
    unfolding acts_on_def by blast
  with True have "pool_jobs w' = pool_jobs w @ new \<and>
      (\<forall>x\<in>set new. fst x \<in> {k} \<and> visible y0 y1 (tiles w ! fst x))" by simp
  then have j: "\<exists>new. pool_jobs w' = pool_jobs w @ new \<and>
      (\<forall>x\<in>set new. fst x \<in> {k} \<and> visible y0 y1 (tiles w ! fst x))" ..
  have fx: "fixed_part (tiles w' ! j) = fixed_part (tiles w ! j)" for j
    using a by (cases "j = k") (simp_all add: acts_on_def)
  have ix: "idx (tiles w' ! j) = idx (tiles w ! j)" if "\<not> running (tiles w ! j)" for j
  proof (cases "j = k")
    case True
    with that tick_tile_acts(3)[OF assms, of codec sha1 y0 y1 n play] show ?thesis
      by (simp add: w'_def)
  next
    case False
    with a show ?thesis by (simp add: acts_on_def)
  qed
  from a fx ix j True show ?thesis
    unfolding tick_rel_def w'_def[symmetric] acts_on_def by auto
qed

lemma tick_rel_trans:
  assumes "tick_rel y0 y1 K1 w w1" and "tick_rel y0 y1 K2 w1 w2"
  shows "tick_rel y0 y1 (K1 \<union> K2) w w2"
proof -
  have fx1: "fixed_part (tiles w1 ! j) = fixed_part (tiles w ! j)" for j
    using assms(1) by (simp add: tick_rel_def)
  have fx2: "fixed_part (tiles w2 ! j) = fixed_part (tiles w1 ! j)" for j
    using assms(2) by (simp add: tick_rel_def)
  have vis: "visible y0 y1 (tiles w1 ! j) = visible y0 y1 (tiles w ! j)" for j
    using fixed_part_visible[OF fx1] by simp
  have run: "running (tiles w1 ! j) = running (tiles w ! j)" for j
    using fixed_part_visible[OF fx1] by simp
  from assms obtain n1 n2 where
    n1: "pool_jobs w1 = pool_jobs w @ n1" "\<forall>x\<in>set n1. fst x \<in> K1 \<and> visible y0 y1 (tiles w ! fst x)"
    and n2: "pool_jobs w2 = pool_jobs w1 @ n2" "\<forall>x\<in>set n2. fst x \<in> K2 \<and> visible y0 y1 (tiles w1 ! fst x)"
    unfolding tick_rel_def by blast
  have "pool_jobs w2 = pool_jobs w @ (n1 @ n2) \<and>
      (\<forall>x\<in>set (n1 @ n2). fst x \<in> K1 \<union> K2 \<and> visible y0 y1 (tiles w ! fst x))"
    using n1 n2 vis by auto
  then have j: "\<exists>new. pool_jobs w2 = pool_jobs w @ new \<and>
      (\<forall>x\<in>set new. fst x \<in> K1 \<union> K2 \<and> visible y0 y1 (tiles w ! fst x))" ..
  have same: "tiles w2 ! j = tiles w ! j" if "j \<notin> K1 \<union> K2 \<or> \<not> visible y0 y1 (tiles w ! j)" for j
  proof -
    from that have "tiles w1 ! j = tiles w ! j" using assms(1) by (auto simp: tick_rel_def)
    moreover from that vis[of j] have "tiles w2 ! j = tiles w1 ! j"
      using assms(2) by (auto simp: tick_rel_def)
    ultimately show ?thesis by simp
  qed
  have ix: "idx (tiles w2 ! j) = idx (tiles w ! j)" if "\<not> running (tiles w ! j)" for j
  proof -
    from that have "idx (tiles w1 ! j) = idx (tiles w ! j)" using assms(1) by (simp add: tick_rel_def)
    moreover from that run[of j] have "idx (tiles w2 ! j) = idx (tiles w1 ! j)"
      using assms(2) by (simp add: tick_rel_def)
    ultimately show ?thesis by simp
  qed
  have "length (tiles w2) = length (tiles w)" "pool w2 = pool w"
    using assms by (simp_all add: tick_rel_def)
  moreover have "\<forall>j. fixed_part (tiles w2 ! j) = fixed_part (tiles w ! j)"
    using fx1 fx2 by simp
  ultimately show ?thesis using same ix j unfolding tick_rel_def by blast
qed

lemma tick_rel_foldl:
  assumes "\<forall>k\<in>set ks. k < length (tiles w)"
  shows "tick_rel y0 y1 (set ks) w (foldl (tick_tile codec sha1 y0 y1 n play) w ks)"
  using assms
proof (induction ks arbitrary: w)
  case Nil
  show ?case by (simp add: tick_rel_refl)
next
  case (Cons k ks)
  define w1 where "w1 = tick_tile codec sha1 y0 y1 n play w k"
  from Cons.prems have k: "k < length (tiles w)" by simp
  have r1: "tick_rel y0 y1 {k} w w1" unfolding w1_def by (rule tick_rel_step[OF k])
  then have "length (tiles w1) = length (tiles w)" by (simp add: tick_rel_def)
  with Cons.prems have "\<forall>k\<in>set ks. k < length (tiles w1)" by simp
  from Cons.IH[OF this] have "tick_rel y0 y1 (set ks) w1 (foldl (tick_tile codec sha1 y0 y1 n play) w1 ks)" .
  from tick_rel_trans[OF r1 this] show ?case by (simp add: w1_def)
qed

lemma tick_rel_tick:
  "tick_rel y0 y1 {0..<length (tiles w)} w (tick codec sha1 y0 y1 frame_step play w)"
proof (cases "tiles w = []")
  case True
  then show ?thesis by (simp add: tick_def tick_rel_refl)
next
  case False
  have "\<forall>k\<in>set [0..<length (tiles w)]. k < length (tiles w)" by simp
  from tick_rel_foldl[OF this, of y0 y1 codec sha1 "max 1 frame_step" play] False
  show ?thesis by (simp add: tick_def)
qed


lemma foldl_advances:
  assumes "\<forall>k\<in>set ks. k < length (tiles w)" and "distinct ks" and "j \<in> set ks"
    and "play" and "visible y0 y1 (tiles w ! j)" and "running (tiles w ! j)"
    and "first_loaded (tiles w ! j)" and "frames (seq (tiles w ! j)) \<noteq> []"
  shows "idx (tiles (foldl (tick_tile codec sha1 y0 y1 n play) w ks) ! j)
           = (idx (tiles w ! j) + n) mod int (length (frames (seq (tiles w ! j))))"
  using assms
proof (induction ks arbitrary: w)
  case Nil
  then show ?case by simp
next
  case (Cons k ks)
  define w1 where "w1 = tick_tile codec sha1 y0 y1 n play w k"
  from Cons.prems have k: "k < length (tiles w)" by simp
  from tick_tile_acts(1)[OF k, of codec sha1 y0 y1 n play]
  have a: "acts_on k w w1" by (simp add: w1_def)
  then have len: "\<forall>k\<in>set ks. k < length (tiles w1)" using Cons.prems(1) by (simp add: acts_on_def)
  show ?case
  proof (cases "j = k")
    case True
    from Cons.prems True tick_tile_acts(4)[OF k, of play y0 y1 codec sha1 n]
    have "idx (tiles w1 ! j) = (idx (tiles w ! j) + n) mod int (length (frames (seq (tiles w ! j))))"
      by (simp add: w1_def)
    moreover from True Cons.prems(2) have "j \<notin> set ks" by simp
    with tick_rel_foldl[OF len, of y0 y1 codec sha1 n play]
    have "tiles (foldl (tick_tile codec sha1 y0 y1 n play) w1 ks) ! j = tiles w1 ! j"
      by (simp add: tick_rel_def)
    ultimately show ?thesis by (simp add: w1_def)
  next
    case False
    with a have same: "tiles w1 ! j = tiles w ! j" by (simp add: acts_on_def)
    from False Cons.prems have "j \<in> set ks" "distinct ks" by simp_all
    from Cons.IH[OF len this(2) this(1) Cons.prems(4)] Cons.prems(5-8) same
    show ?thesis by (simp add: w1_def)
  qed
qed

text \<open>
  Claim C7. A tile whose box does not meet the visible range \<open>(y0, y1)\<close> is the same
  after the tick as before: not loaded, not marked as loading, not stepped. Every job the
  tick submits to the pool belongs to a tile of the application whose box meets the
  range, so none belongs to that tile.
\<close>

theorem tick_works_on_visible_tiles_only:
  assumes "i < length (tiles w)" and "\<not> visible y0 y1 (tiles w ! i)"
  shows "tiles (tick codec sha1 y0 y1 frame_step play w) ! i = tiles w ! i \<and>
         (\<exists>new. pool_jobs (tick codec sha1 y0 y1 frame_step play w) = pool_jobs w @ new \<and>
            (\<forall>x\<in>set new. fst x \<noteq> i \<and> fst x < length (tiles w) \<and>
               visible y0 y1 (tiles w ! fst x)))"
proof -
  define w' where "w' = tick codec sha1 y0 y1 frame_step play w"
  have r: "tick_rel y0 y1 {0..<length (tiles w)} w w'"
    unfolding w'_def by (rule tick_rel_tick)
  then have same: "tiles w' ! i = tiles w ! i" using assms(2) by (simp add: tick_rel_def)
  from r obtain new where new: "pool_jobs w' = pool_jobs w @ new"
    "\<forall>x\<in>set new. fst x \<in> {0..<length (tiles w)} \<and> visible y0 y1 (tiles w ! fst x)"
    unfolding tick_rel_def by blast
  with assms(2) have "pool_jobs w' = pool_jobs w @ new \<and>
      (\<forall>x\<in>set new. fst x \<noteq> i \<and> fst x < length (tiles w) \<and> visible y0 y1 (tiles w ! fst x))"
    by auto
  then have "\<exists>new. pool_jobs w' = pool_jobs w @ new \<and>
      (\<forall>x\<in>set new. fst x \<noteq> i \<and> fst x < length (tiles w) \<and> visible y0 y1 (tiles w ! fst x))" ..
  with same show ?thesis unfolding w'_def by simp
qed

theorem tick_works_on_visible_tiles_only_witness:
  "1 < length (tiles demo_app) \<and> \<not> visible 0 100 (tiles demo_app ! 1) \<and>
   visible 0 100 (tiles demo_app ! 0) \<and>
   tiles (tick (\<lambda>p s. None) (\<lambda>b. b) 0 100 2 True demo_app) ! 1 = tiles demo_app ! 1 \<and>
   pool_jobs (tick (\<lambda>p s. None) (\<lambda>b. b) 0 100 2 True demo_app) = [(0, ''/r/a_003.png'', 2)]"
proof -
  have h1: "1 < length (tiles demo_app)" by (simp add: demo_app_def)
  have h2: "\<not> visible 0 100 (tiles demo_app ! 1)"
    by (simp add: demo_app_def visible_def SeqTile_init_def)
  have h3: "visible 0 100 (tiles demo_app ! 0)"
    by (simp add: demo_app_def visible_def SeqTile_init_def)
  have h4: "pool_jobs (tick (\<lambda>p s. None) (\<lambda>b. b) 0 100 2 True demo_app) = [(0, ''/r/a_003.png'', 2)]"
    by (simp add: tick_def tick_tile_def demo_app_def demo_seq_def visible_def SeqTile_init_def
          ensure_first_frame_loaded_def step_def upd_tile_def cache_get_def dispatch_def Let_def
          upt_rec)
  from tick_works_on_visible_tiles_only [OF h1 h2, of "\<lambda>p s. None" "\<lambda>b. b" 2 True] h1 h2 h3 h4
  show ?thesis by simp
qed


lemma load_and_cache_other:
  "length (tiles (load_and_cache codec sha1 i' path k w)) = length (tiles w) \<and>
   (j \<noteq> i' \<longrightarrow> tiles (load_and_cache codec sha1 i' path k w) ! j = tiles w ! j)"
  by (simp add: load_and_cache_def upd_tile_def draw_photo_def draw_text_def
        split: option.splits prod.splits)

lemma toggle_other:
  "length (tiles (toggle i' w)) = length (tiles w) \<and>
   (j \<noteq> i' \<longrightarrow> tiles (toggle i' w) ! j = tiles w ! j)"
  by (simp add: toggle_def upd_tile_def)

lemma run_event_paused:
  assumes "i < length (tiles w)" and "\<not> running (tiles w ! i)" and "e \<noteq> Click i"
  shows "length (tiles (run_event codec sha1 e w)) = length (tiles w) \<and>
         \<not> running (tiles (run_event codec sha1 e w) ! i) \<and>
         idx (tiles (run_event codec sha1 e w) ! i) = idx (tiles w ! i)"
proof (cases e)
  case (Tick y0 y1 frame_step play)
  have r: "tick_rel y0 y1 {0..<length (tiles w)} w (tick codec sha1 y0 y1 frame_step play w)"
    by (rule tick_rel_tick)
  then have "fixed_part (tiles (tick codec sha1 y0 y1 frame_step play w) ! i) = fixed_part (tiles w ! i)"
    by (simp add: tick_rel_def)
  then have "running (tiles (tick codec sha1 y0 y1 frame_step play w) ! i) = running (tiles w ! i)"
    by (simp add: fixed_part_def)
  with r assms(2) Tick show ?thesis by (simp add: tick_rel_def)
next
  case (JobDone k)
  show ?thesis
  proof (cases "k < length (pool_jobs w)")
    case False
    with JobDone assms show ?thesis by simp
  next
    case True
    obtain i' path fi where job: "pool_jobs w ! k = (i', path, fi)" by (cases "pool_jobs w ! k")
    define w0 where "w0 = w\<lparr>pool_jobs := take k (pool_jobs w) @ drop (Suc k) (pool_jobs w)\<rparr>"
    have t0: "tiles w0 = tiles w" by (simp add: w0_def)
    have e: "run_event codec sha1 e w = load_and_cache codec sha1 i' path fi w0"
      using JobDone True job by (simp add: w0_def)
    show ?thesis
    proof (cases "i' = i")
      case True
      from assms(1) t0 have "i < length (tiles w0)" by simp
      from load_and_cache_acts[OF this, of codec sha1 path fi]
      have "fixed_part (tiles (load_and_cache codec sha1 i path fi w0) ! i) = fixed_part (tiles w0 ! i)"
        and "idx (tiles (load_and_cache codec sha1 i path fi w0) ! i) = idx (tiles w0 ! i)"
        and "length (tiles (load_and_cache codec sha1 i path fi w0)) = length (tiles w0)"
        by (simp_all add: acts_on_def)
      with True e t0 assms(2) show ?thesis by (simp add: fixed_part_def)
    next
      case False
      with load_and_cache_other[of codec sha1 i' path fi w0 i] e t0 assms(2) show ?thesis by simp
    qed
  qed
next
  case (Click j)
  with assms(3) have "j \<noteq> i" by simp
  with toggle_other[of j w i] Click assms(2) show ?thesis by simp
qed

lemma run_events_paused:
  assumes "i < length (tiles w)" and "\<not> running (tiles w ! i)" and "Click i \<notin> set es"
  shows "\<not> running (tiles (run_events codec sha1 es w) ! i) \<and>
         idx (tiles (run_events codec sha1 es w) ! i) = idx (tiles w ! i)"
  using assms
proof (induction es arbitrary: w)
  case Nil
  then show ?case by simp
next
  case (Cons e es)
  from Cons.prems have ne: "e \<noteq> Click i" and rest: "Click i \<notin> set es" by auto
  from run_event_paused[OF Cons.prems(1,2) ne, of codec sha1]
  have 1: "i < length (tiles (run_event codec sha1 e w))"
    and 2: "\<not> running (tiles (run_event codec sha1 e w) ! i)"
    and 3: "idx (tiles (run_event codec sha1 e w) ! i) = idx (tiles w ! i)"
    using Cons.prems(1) by simp_all
  from Cons.IH[OF 1 2 rest] 3 show ?case by simp
qed

lemma tick_advances:
  assumes "j < length (tiles w)" and "running (tiles w ! j)" and "visible y0 y1 (tiles w ! j)"
    and "first_loaded (tiles w ! j)" and "frames (seq (tiles w ! j)) \<noteq> []"
  shows "idx (tiles (tick codec sha1 y0 y1 frame_step True w) ! j)
           = (idx (tiles w ! j) + max 1 frame_step) mod int (length (frames (seq (tiles w ! j))))"
proof -
  from assms(1) have ne: "tiles w \<noteq> []" by auto
  have "idx (tiles (foldl (tick_tile codec sha1 y0 y1 (max 1 frame_step) True) w
               [0..<length (tiles w)]) ! j)
           = (idx (tiles w ! j) + max 1 frame_step) mod int (length (frames (seq (tiles w ! j))))"
    by (rule foldl_advances) (use assms in simp_all)
  with ne show ?thesis by (simp add: tick_def)
qed

text \<open>
  Claim C8. A tile whose running flag is false keeps its frame index, and stays paused,
  through every run of ticks (with any visible range, step and play flag, true
  included), of jobs that finish and of clicks on other tiles. On a tick with the play
  flag set, every tile that is running, within the visible range and has its first frame
  loaded moves its index on by the step, modulo its number of frames.
\<close>

theorem paused_tile_keeps_frame_others_advance:
  assumes "i < length (tiles w)" and "\<not> running (tiles w ! i)" and "Click i \<notin> set es"
  shows "idx (tiles (run_events codec sha1 es w) ! i) = idx (tiles w ! i) \<and>
         \<not> running (tiles (run_events codec sha1 es w) ! i) \<and>
         (\<forall>j<length (tiles w).
            running (tiles w ! j) \<and> visible y0 y1 (tiles w ! j) \<and> first_loaded (tiles w ! j) \<and>
            frames (seq (tiles w ! j)) \<noteq> [] \<longrightarrow>
              idx (tiles (tick codec sha1 y0 y1 frame_step True w) ! j)
                = (idx (tiles w ! j) + max 1 frame_step) mod int (length (frames (seq (tiles w ! j)))))"
  using run_events_paused[OF assms] tick_advances by blast

theorem paused_tile_keeps_frame_others_advance_witness:
  "1 < length (tiles demo_app) \<and> \<not> running (tiles demo_app ! 1) \<and>
   Click 1 \<notin> set [Tick 0 1000 2 True, JobDone 0, Tick 0 1000 2 True] \<and>
   idx (tiles (run_events (\<lambda>p s. None) (\<lambda>b. b) [Tick 0 1000 2 True, JobDone 0, Tick 0 1000 2 True] demo_app) ! 1) = 0 \<and>
   idx (tiles (tick (\<lambda>p s. None) (\<lambda>b. b) 0 1000 2 True demo_app) ! 0) = 2"
proof -
  have h1: "1 < length (tiles demo_app)" by (simp add: demo_app_def)
  have h2: "\<not> running (tiles demo_app ! 1)" by (simp add: demo_app_def SeqTile_init_def)
  have h3: "Click 1 \<notin> set [Tick 0 1000 2 True, JobDone 0, Tick 0 1000 2 True]" by simp
  note t = paused_tile_keeps_frame_others_advance [OF h1 h2 h3, of "\<lambda>p s. None" "\<lambda>b. b" 0 1000 2]
  from t have a: "idx (tiles (run_events (\<lambda>p s. None) (\<lambda>b. b)
       [Tick 0 1000 2 True, JobDone 0, Tick 0 1000 2 True] demo_app) ! 1) = idx (tiles demo_app ! 1)"
    by blast
  have z: "idx (tiles demo_app ! 1) = 0" by (simp add: demo_app_def SeqTile_init_def)
  have p: "0 < length (tiles demo_app)" "running (tiles demo_app ! 0)" "visible 0 1000 (tiles demo_app ! 0)"
    "first_loaded (tiles demo_app ! 0)" "frames (seq (tiles demo_app ! 0)) \<noteq> []"
    by (simp_all add: demo_app_def demo_seq_def SeqTile_init_def visible_def)
  from t p have "idx (tiles (tick (\<lambda>p s. None) (\<lambda>b. b) 0 1000 2 True demo_app) ! 0)
      = (idx (tiles demo_app ! 0) + max 1 2) mod int (length (frames (seq (tiles demo_app ! 0))))"
    by blast
  also have "\<dots> = 2" by (simp add: demo_app_def demo_seq_def SeqTile_init_def)
  finally show ?thesis using h1 h2 h3 a z by simp
qed

end
